theory Spec2Isabelle
  imports Main "HOL-Library.Monad_Syntax"
begin

section \<open>Memory, C strings and \<open>size_t\<close> arithmetic\<close>

text \<open>
  A heap array of \<open>char\<close> is a list of cells, as long as the allocation. A cell that
  \<open>new char[n]\<close> has left uninitialised holds an indeterminate value: \<open>None\<close>.
  A function that returns \<open>None\<close> did not return normally: it read or wrote outside an
  allocation (undefined behaviour), or its loop never ends. Allocation itself is taken to
  succeed.
\<close>

type_synonym cell = "char option"

definition NUL :: char where
  "NUL = CHR 0x00"

text \<open>\<open>size_t\<close> is 64 bits wide; its arithmetic wraps around.\<close>

definition size_t_range :: nat where
  "size_t_range = 2 ^ 64"

definition sz_add :: "nat \<Rightarrow> nat \<Rightarrow> nat" where
  "sz_add a b = (a + b) mod size_t_range"

definition sz_sub :: "nat \<Rightarrow> nat \<Rightarrow> nat" where
  "sz_sub a b = (a + (size_t_range - b mod size_t_range)) mod size_t_range"

definition sz_mul :: "nat \<Rightarrow> nat \<Rightarrow> nat" where
  "sz_mul a b = (a * b) mod size_t_range"

text \<open>\<open>new char[n]\<close>: \<open>n\<close> cells, none initialised.\<close>

definition new_char :: "nat \<Rightarrow> cell list" where
  "new_char n = replicate n None"

text \<open>
  \<open>memcpy(dst + d, src + s, n)\<close>, source and destination in different allocations.
  Both ranges have to lie inside their allocations.
\<close>

definition memcpy :: "cell list \<Rightarrow> nat \<Rightarrow> cell list \<Rightarrow> nat \<Rightarrow> nat \<Rightarrow> cell list option" where
  "memcpy dst d src s n =
     (if d + n \<le> length dst \<and> s + n \<le> length src
      then Some (take d dst @ take n (drop s src) @ drop (d + n) dst)
      else None)"

text \<open>\<open>memmove(buf + d, buf + s, n)\<close> inside one allocation; the ranges may overlap.\<close>

definition memmove :: "cell list \<Rightarrow> nat \<Rightarrow> nat \<Rightarrow> nat \<Rightarrow> cell list option" where
  "memmove buf d s n = memcpy buf d buf s n"

text \<open>
  A \<open>const char*\<close> argument is read up to its first NUL: \<open>cstr\<close> are the characters
  before it, \<open>strlen\<close> their number.
\<close>

definition not_NUL :: "char \<Rightarrow> bool" where
  "not_NUL c = (c \<noteq> NUL)"

definition cstr :: "string \<Rightarrow> string" where
  "cstr t = takeWhile not_NUL t"

definition strlen :: "string \<Rightarrow> nat" where
  "strlen t = length (cstr t)"

text \<open>\<open>strcpy(dst + d, t)\<close> writes the characters of \<open>t\<close> and the terminator.\<close>

definition strcpy :: "cell list \<Rightarrow> nat \<Rightarrow> string \<Rightarrow> cell list option" where
  "strcpy dst d t = memcpy dst d (map Some (cstr t) @ [Some NUL]) 0 (strlen t + 1)"

text \<open>\<open>buf[i] = c\<close>.\<close>

definition poke :: "cell list \<Rightarrow> nat \<Rightarrow> char \<Rightarrow> cell list option" where
  "poke buf i c = (if i < length buf then Some (buf[i := Some c]) else None)"

text \<open>
  \<open>std::string::assign(buf + p, n)\<close> reads \<open>n\<close> characters; reading outside the
  allocation or reading an indeterminate value is undefined.
\<close>

definition peek_string :: "cell list \<Rightarrow> nat \<Rightarrow> nat \<Rightarrow> string option" where
  "peek_string buf p n =
     (if p + n \<le> length buf then those (take n (drop p buf)) else None)"

section \<open>Memento and CareTaker\<close>

record Memento =
  savedData :: "cell list"
  savedSize :: nat
  savedCapacity :: nat

text \<open>The constructor allocates \<open>capacity\<close> cells and copies the first \<open>size\<close>.\<close>

definition Memento_new :: "cell list \<Rightarrow> nat \<Rightarrow> nat \<Rightarrow> Memento option" where
  "Memento_new d n cap =
     do {
       buf \<leftarrow> memcpy (new_char cap) 0 d 0 n;
       Some \<lparr>savedData = buf, savedSize = n, savedCapacity = cap\<rparr>
     }"

text \<open>The two vectors; \<open>push_back\<close> appends, \<open>back\<close> is the last element.\<close>

record CareTaker =
  undoStack :: "Memento list"
  redoStack :: "Memento list"

definition saveState :: "CareTaker \<Rightarrow> cell list \<Rightarrow> nat \<Rightarrow> nat \<Rightarrow> CareTaker option" where
  "saveState ct d n cap =
     do {
       memento \<leftarrow> Memento_new d n cap;
       Some (ct\<lparr>undoStack := undoStack ct @ [memento], redoStack := []\<rparr>)
     }"

definition pushToUndo :: "CareTaker \<Rightarrow> cell list \<Rightarrow> nat \<Rightarrow> nat \<Rightarrow> CareTaker option" where
  "pushToUndo ct d n cap =
     do {
       memento \<leftarrow> Memento_new d n cap;
       Some (ct\<lparr>undoStack := undoStack ct @ [memento]\<rparr>)
     }"

definition pushToRedo :: "CareTaker \<Rightarrow> cell list \<Rightarrow> nat \<Rightarrow> nat \<Rightarrow> CareTaker option" where
  "pushToRedo ct d n cap =
     do {
       memento \<leftarrow> Memento_new d n cap;
       Some (ct\<lparr>redoStack := redoStack ct @ [memento]\<rparr>)
     }"

text \<open>\<open>CareTaker::undo\<close> and \<open>CareTaker::redo\<close>; \<open>nullptr\<close> is \<open>None\<close>.\<close>

definition CareTaker_undo :: "CareTaker \<Rightarrow> Memento option \<times> CareTaker" where
  "CareTaker_undo ct =
     (if undoStack ct \<noteq> []
      then (Some (last (undoStack ct)), ct\<lparr>undoStack := butlast (undoStack ct)\<rparr>)
      else (None, ct))"

definition CareTaker_redo :: "CareTaker \<Rightarrow> Memento option \<times> CareTaker" where
  "CareTaker_redo ct =
     (if redoStack ct \<noteq> []
      then (Some (last (redoStack ct)), ct\<lparr>redoStack := butlast (redoStack ct)\<rparr>)
      else (None, ct))"

section \<open>DynamicArray\<close>

record DynamicArray =
  data :: "cell list"
  size_d :: nat
  capacity :: nat
  careTaker :: CareTaker
  clipboard :: string

text \<open>What the methods print on \<open>std::cout\<close>.\<close>

definition msg_invalid_range :: string where
  "msg_invalid_range = ''Invalid position or length.\<newline>''"

definition msg_invalid_position :: string where
  "msg_invalid_position = ''Invalid position.\<newline>''"

definition msg_cannot_undo :: string where
  "msg_cannot_undo = ''Cannot undo further.\<newline>''"

definition msg_cannot_redo :: string where
  "msg_cannot_redo = ''Cannot redo further.\<newline>''"

definition resize :: "DynamicArray \<Rightarrow> nat \<Rightarrow> DynamicArray option" where
  "resize a newCapacity =
     do {
       newData \<leftarrow> memcpy (new_char newCapacity) 0 (data a) 0 (size_d a);
       Some (a\<lparr>data := newData, capacity := newCapacity\<rparr>)
     }"

text \<open>The constructor.\<close>

definition DynamicArray_new :: DynamicArray where
  "DynamicArray_new =
     \<lparr>data = (new_char 10)[0 := Some NUL], size_d = 0, capacity = 10,
      careTaker = \<lparr>undoStack = [], redoStack = []\<rparr>, clipboard = []\<rparr>"

text \<open>Every method that records starts with this call.\<close>

definition record_edit :: "DynamicArray \<Rightarrow> DynamicArray option" where
  "record_edit a =
     do {
       ct \<leftarrow> saveState (careTaker a) (data a) (size_d a) (capacity a);
       Some (a\<lparr>careTaker := ct\<rparr>)
     }"

text \<open>The loop of \<open>append\<close>: \<open>while (size + len >= capacity) resize(capacity * 2)\<close>.\<close>

partial_function (option) grow :: "DynamicArray \<Rightarrow> nat \<Rightarrow> DynamicArray option" where
  "grow a len =
     (if sz_add (size_d a) len \<ge> capacity a
      then resize a (sz_mul (capacity a) 2) \<bind> (\<lambda>a'. grow a' len)
      else Some a)"

declare grow.simps [code]

definition append_d :: "DynamicArray \<Rightarrow> string \<Rightarrow> DynamicArray option" where
  "append_d a text =
     do {
       a1 \<leftarrow> record_edit a;
       let len = strlen text;
       a2 \<leftarrow> grow a1 len;
       d \<leftarrow> strcpy (data a2) (size_d a2) text;
       Some (a2\<lparr>data := d, size_d := sz_add (size_d a2) len\<rparr>)
     }"

definition insertAndReplace :: "DynamicArray \<Rightarrow> nat \<Rightarrow> string \<Rightarrow> nat \<Rightarrow> DynamicArray option" where
  "insertAndReplace a pos substring replaceLen =
     do {
       a1 \<leftarrow> record_edit a;
       let len = strlen substring;
       a2 \<leftarrow> (if sz_sub (sz_add (size_d a1) len) replaceLen \<ge> capacity a1
             then resize a1 (sz_mul (sz_sub (sz_add (size_d a1) len) replaceLen) 2)
             else Some a1);
       d1 \<leftarrow> memmove (data a2) (pos + len) (pos + replaceLen)
               (sz_add (sz_sub (sz_sub (size_d a2) pos) replaceLen) 1);
       d2 \<leftarrow> memcpy d1 pos (map Some (cstr substring)) 0 len;
       Some (a2\<lparr>data := d2, size_d := sz_sub (sz_add (size_d a2) len) replaceLen\<rparr>)
     }"

definition deleteText :: "DynamicArray \<Rightarrow> nat \<Rightarrow> nat \<Rightarrow> (string list \<times> DynamicArray) option" where
  "deleteText a pos len =
     do {
       a1 \<leftarrow> record_edit a;
       if pos \<ge> size_d a1 \<or> sz_add pos len > size_d a1
       then Some ([msg_invalid_range], a1)
       else do {
         d1 \<leftarrow> memmove (data a1) pos (pos + len) (sz_sub (sz_sub (size_d a1) pos) len);
         d2 \<leftarrow> poke d1 (sz_sub (size_d a1) len) NUL;
         Some ([], a1\<lparr>data := d2, size_d := sz_sub (size_d a1) len\<rparr>)
       }
     }"

definition copyText :: "DynamicArray \<Rightarrow> nat \<Rightarrow> nat \<Rightarrow> (string list \<times> DynamicArray) option" where
  "copyText a pos len =
     (if pos \<ge> size_d a \<or> sz_add pos len > size_d a
      then Some ([msg_invalid_range], a)
      else do {
        s \<leftarrow> peek_string (data a) pos len;
        Some ([], a\<lparr>clipboard := s\<rparr>)
      })"

definition cutText :: "DynamicArray \<Rightarrow> nat \<Rightarrow> nat \<Rightarrow> (string list \<times> DynamicArray) option" where
  "cutText a pos len =
     do {
       a1 \<leftarrow> record_edit a;
       if pos \<ge> size_d a1 \<or> sz_add pos len > size_d a1
       then Some ([msg_invalid_range], a1)
       else do {
         (out1, a2) \<leftarrow> copyText a1 pos len;
         (out2, a3) \<leftarrow> deleteText a2 pos len;
         Some (out1 @ out2, a3)
       }
     }"

definition pasteText :: "DynamicArray \<Rightarrow> nat \<Rightarrow> (string list \<times> DynamicArray) option" where
  "pasteText a pos =
     do {
       a1 \<leftarrow> record_edit a;
       if pos > size_d a1
       then Some ([msg_invalid_position], a1)
       else do {
         a2 \<leftarrow> insertAndReplace a1 pos (clipboard a1) 0;
         Some ([], a2)
       }
     }"

text \<open>The body that \<open>undo\<close> and \<open>redo\<close> share: put a memento back into the buffer.\<close>

definition restore :: "DynamicArray \<Rightarrow> Memento \<Rightarrow> DynamicArray option" where
  "restore a memento =
     do {
       a1 \<leftarrow> (if capacity a \<noteq> savedCapacity memento
             then resize a (savedCapacity memento)
             else Some a);
       d1 \<leftarrow> memcpy (data a1) 0 (savedData memento) 0 (savedSize memento);
       d2 \<leftarrow> poke d1 (savedSize memento) NUL;
       Some (a1\<lparr>data := d2, size_d := savedSize memento\<rparr>)
     }"

definition undo :: "DynamicArray \<Rightarrow> (string list \<times> DynamicArray) option" where
  "undo a =
     do {
       ct \<leftarrow> pushToRedo (careTaker a) (data a) (size_d a) (capacity a);
       case CareTaker_undo ct of
         (Some memento, ct') \<Rightarrow>
           do { a' \<leftarrow> restore (a\<lparr>careTaker := ct'\<rparr>) memento; Some ([], a') }
       | (None, ct') \<Rightarrow> Some ([msg_cannot_undo], a\<lparr>careTaker := ct'\<rparr>)
     }"

definition redo :: "DynamicArray \<Rightarrow> (string list \<times> DynamicArray) option" where
  "redo a =
     do {
       ct \<leftarrow> pushToUndo (careTaker a) (data a) (size_d a) (capacity a);
       case CareTaker_redo ct of
         (Some memento, ct') \<Rightarrow>
           do { a' \<leftarrow> restore (a\<lparr>careTaker := ct'\<rparr>) memento; Some ([], a') }
       | (None, ct') \<Rightarrow> Some ([msg_cannot_redo], a\<lparr>careTaker := ct'\<rparr>)
     }"

section \<open>Vocabulary of the properties\<close>

text \<open>The memento that the constructor builds from the array as it stands.\<close>

definition snapshot :: "DynamicArray \<Rightarrow> Memento" where
  "snapshot a =
     \<lparr>savedData = take (size_d a) (data a) @ replicate (capacity a - size_d a) None,
      savedSize = size_d a, savedCapacity = capacity a\<rparr>"

text \<open>The array after \<open>saveState\<close> alone: one more memento to undo, nothing to redo.\<close>

definition recorded :: "DynamicArray \<Rightarrow> DynamicArray" where
  "recorded a =
     a\<lparr>careTaker := (careTaker a)\<lparr>undoStack := undoStack (careTaker a) @ [snapshot a],
                                    redoStack := []\<rparr>\<rparr>"

text \<open>
  The class invariant that the constructor establishes: the allocation has \<open>capacity\<close>
  cells, \<open>size\<close> leaves room for the terminator, and both fit \<open>size_t\<close>.
\<close>

definition buffer_ok :: "DynamicArray \<Rightarrow> bool" where
  "buffer_ok a =
     (length (data a) = capacity a \<and> size_d a < capacity a \<and> capacity a < size_t_range)"

text \<open>The content: the cells \<open>data[0]\<close> to \<open>data[size - 1]\<close>.\<close>

definition content :: "DynamicArray \<Rightarrow> cell list" where
  "content a = take (size_d a) (data a)"

text \<open>The first \<open>size\<close> cells have been written.\<close>

definition initialised :: "DynamicArray \<Rightarrow> bool" where
  "initialised a = (None \<notin> set (take (size_d a) (data a)))"

text \<open>The terminator is in place: \<open>data[size]\<close> is NUL.\<close>

definition terminated :: "DynamicArray \<Rightarrow> bool" where
  "terminated a = (size_d a < length (data a) \<and> data a ! size_d a = Some NUL)"

text \<open>The two writes of \<open>deleteText\<close> to the buffer, once the range has passed the check.\<close>

definition delete_cells :: "cell list \<Rightarrow> nat \<Rightarrow> nat \<Rightarrow> nat \<Rightarrow> cell list option" where
  "delete_cells d n pos len =
     do {
       d1 \<leftarrow> memmove d pos (pos + len) (sz_sub (sz_sub n pos) len);
       poke d1 (sz_sub n len) NUL
     }"

text \<open>\<open>copyText(pos, len)\<close> followed by \<open>deleteText(pos, len)\<close>, as a caller would write it.\<close>

definition copy_then_delete :: "DynamicArray \<Rightarrow> nat \<Rightarrow> nat \<Rightarrow> (string list \<times> DynamicArray) option" where
  "copy_then_delete a pos len =
     do {
       (out1, a1) \<leftarrow> copyText a pos len;
       (out2, a2) \<leftarrow> deleteText a1 pos len;
       Some (out1 @ out2, a2)
     }"

text \<open>A refused \<open>redo\<close>: nothing to redo, the message, and only the undo stack touched.\<close>

definition redo_refused :: "DynamicArray \<Rightarrow> bool" where
  "redo_refused a =
     (redoStack (careTaker a) = [] \<and>
      redo a = Some ([msg_cannot_redo],
                     a\<lparr>careTaker := (careTaker a)\<lparr>undoStack := undoStack (careTaker a) @ [snapshot a]\<rparr>\<rparr>))"

definition undo_depth :: "DynamicArray \<Rightarrow> nat" where
  "undo_depth a = length (undoStack (careTaker a))"

definition redo_depth :: "DynamicArray \<Rightarrow> nat" where
  "redo_depth a = length (redoStack (careTaker a))"

text \<open>
  A memento as the constructor builds it from an array that satisfies its invariant:
  \<open>savedCapacity\<close> cells, of which the first \<open>savedSize\<close> have been written.
\<close>

definition memento_ok :: "Memento \<Rightarrow> bool" where
  "memento_ok m =
     (length (savedData m) = savedCapacity m \<and> savedSize m < savedCapacity m \<and>
      savedCapacity m < size_t_range \<and> None \<notin> set (take (savedSize m) (savedData m)))"

definition history_ok :: "DynamicArray \<Rightarrow> bool" where
  "history_ok a =
     (list_all memento_ok (undoStack (careTaker a)) \<and>
      list_all memento_ok (redoStack (careTaker a)))"

text \<open>What holds of every array that the program reaches by valid calls.\<close>

definition array_inv :: "DynamicArray \<Rightarrow> bool" where
  "array_inv a = (buffer_ok a \<and> initialised a \<and> history_ok a)"

section \<open>The menu loop of \<open>main\<close>\<close>

text \<open>
  The commands of the menu that reach the array (choices 1, 2, 7 and 9 to 14), and what
  \<open>main\<close> calls for each. Of the output only the messages of the methods are kept.
\<close>

datatype command =
    Append string
  | NewLine
  | Insert nat string nat
  | Undo
  | Redo
  | Delete nat nat
  | Cut nat nat
  | Copy nat nat
  | Paste nat

definition silent :: "DynamicArray option \<Rightarrow> (string list \<times> DynamicArray) option" where
  "silent r = map_option (Pair []) r"

fun execute :: "DynamicArray \<Rightarrow> command \<Rightarrow> (string list \<times> DynamicArray) option" where
  "execute arr (Append t) = silent (append_d arr t)"
| "execute arr NewLine = silent (append_d arr ''\<newline>'')"
| "execute arr (Insert pos t replaceLen) = silent (insertAndReplace arr pos t replaceLen)"
| "execute arr Undo = undo arr"
| "execute arr Redo = redo arr"
| "execute arr (Delete pos len) = deleteText arr pos len"
| "execute arr (Cut pos len) = cutText arr pos len"
| "execute arr (Copy pos len) = copyText arr pos len"
| "execute arr (Paste pos) = pasteText arr pos"

fun run :: "DynamicArray \<Rightarrow> command list \<Rightarrow> (string list \<times> DynamicArray) option" where
  "run arr [] = Some ([], arr)"
| "run arr (c # cs) =
     do {
       (out1, arr1) \<leftarrow> execute arr c;
       (out2, arr2) \<leftarrow> run arr1 cs;
       Some (out1 @ out2, arr2)
     }"

text \<open>
  \<open>insertAndReplace\<close> checks nothing: its caller has to keep \<open>pos + replaceLen\<close> within
  the size. The other methods take any arguments.
\<close>

fun valid_call :: "DynamicArray \<Rightarrow> command \<Rightarrow> bool" where
  "valid_call arr (Insert pos t replaceLen) = (pos + replaceLen \<le> size_d arr)"
| "valid_call arr c = True"

fun valid_calls :: "DynamicArray \<Rightarrow> command list \<Rightarrow> bool" where
  "valid_calls arr [] = True"
| "valid_calls arr (c # cs) =
     (valid_call arr c \<and>
      (case execute arr c of None \<Rightarrow> True | Some (out, arr1) \<Rightarrow> valid_calls arr1 cs))"

section \<open>Some arrays that the program reaches\<close>

text \<open>After \<open>append("hello")\<close> on a new array.\<close>

definition hello_buffer :: DynamicArray where
  "hello_buffer =
     \<lparr>data = map Some ''hello'' @ [Some NUL] @ replicate 4 None, size_d = 5, capacity = 10,
      careTaker = \<lparr>undoStack = [snapshot DynamicArray_new], redoStack = []\<rparr>,
      clipboard = []\<rparr>"

text \<open>After \<open>copyText(1, 3)\<close> on that.\<close>

definition hello_copied :: DynamicArray where
  "hello_copied = hello_buffer\<lparr>clipboard := ''ell''\<rparr>"

text \<open>After \<open>append("hello")\<close>, \<open>append("!")\<close> and \<open>undo()\<close>: one state to redo.\<close>

definition undone_buffer :: DynamicArray where
  "undone_buffer =
     \<lparr>data = map Some ''hello'' @ [Some NUL, Some NUL] @ replicate 3 None, size_d = 5,
      capacity = 10,
      careTaker =
        \<lparr>undoStack = [snapshot DynamicArray_new],
         redoStack = [\<lparr>savedData = map Some ''hello!'' @ replicate 4 None,
                       savedSize = 6, savedCapacity = 10\<rparr>]\<rparr>,
      clipboard = []\<rparr>"

section \<open>Arithmetic of \<open>size_t\<close> without wrap-around\<close>

lemma size_t_range_pos: "0 < size_t_range"
  by (simp add: size_t_range_def)

lemma sz_add_eq: "a + b < size_t_range \<Longrightarrow> sz_add a b = a + b"
  by (simp add: sz_add_def)

lemma sz_sub_eq:
  assumes "b \<le> a" "a < size_t_range"
  shows "sz_sub a b = a - b"
proof -
  from assms have b: "b mod size_t_range = b" by simp
  from assms have "a + (size_t_range - b) = (a - b) + size_t_range" by arith
  then have "sz_sub a b = ((a - b) + size_t_range) mod size_t_range"
    unfolding sz_sub_def b by (rule arg_cong)
  also have "\<dots> = (a - b) mod size_t_range" by (rule mod_add_self2)
  also from assms have "\<dots> = a - b" by simp
  finally show ?thesis .
qed

lemma sz_mul_eq: "a * b < size_t_range \<Longrightarrow> sz_mul a b = a * b"
  by (simp add: sz_mul_def)

lemma sz_add_less: "sz_add a b < size_t_range"
  by (simp add: sz_add_def size_t_range_pos)

lemma sz_sub_less: "sz_sub a b < size_t_range"
  by (simp add: sz_sub_def size_t_range_pos)

lemma sz_mul_less: "sz_mul a b < size_t_range"
  by (simp add: sz_mul_def size_t_range_pos)

lemma sz_add_sub_eq:
  assumes "c \<le> a" "a < size_t_range" "a + b - c < size_t_range"
  shows "sz_sub (sz_add a b) c = a + b - c"
proof -
  from assms have c: "c mod size_t_range = c" by simp
  have "sz_sub (sz_add a b) c = ((a + b) mod size_t_range + (size_t_range - c)) mod size_t_range"
    unfolding sz_sub_def sz_add_def c ..
  also have "\<dots> = ((a + b) + (size_t_range - c)) mod size_t_range"
    by (rule mod_add_left_eq)
  also from assms have "(a + b) + (size_t_range - c) = (a + b - c) + size_t_range" by arith
  also have "((a + b - c) + size_t_range) mod size_t_range = (a + b - c) mod size_t_range"
    by (rule mod_add_self2)
  also from assms have "\<dots> = a + b - c" by simp
  finally show ?thesis .
qed

section \<open>Memory operations and recording\<close>

lemma memcpy_length: "memcpy dst d src s n = Some r \<Longrightarrow> length r = length dst"
  by (auto simp: memcpy_def split: if_splits)

lemma memcpy_new:
  "n \<le> cap \<Longrightarrow> n \<le> length d \<Longrightarrow>
   memcpy (new_char cap) 0 d 0 n = Some (take n d @ replicate (cap - n) None)"
  by (simp add: memcpy_def new_char_def)

lemma memcpy_new_Some:
  "memcpy (new_char cap) 0 d 0 n = Some r \<Longrightarrow>
   n \<le> cap \<and> n \<le> length d \<and> r = take n d @ replicate (cap - n) None"
  by (simp add: memcpy_def new_char_def split: if_splits)

lemma poke_Some: "poke b i c = Some r \<Longrightarrow> length r = length b \<and> i < length b"
  by (auto simp: poke_def split: if_splits)

lemma Memento_new_ok:
  "n \<le> cap \<Longrightarrow> n \<le> length d \<Longrightarrow>
   Memento_new d n cap =
     Some \<lparr>savedData = take n d @ replicate (cap - n) None, savedSize = n, savedCapacity = cap\<rparr>"
  by (simp add: Memento_new_def memcpy_new)

lemma record_edit_ok: "buffer_ok a \<Longrightarrow> record_edit a = Some (recorded a)"
  by (simp add: record_edit_def saveState_def Memento_new_ok recorded_def snapshot_def buffer_ok_def)

lemma recorded_fields:
  "data (recorded a) = data a" "size_d (recorded a) = size_d a"
  "capacity (recorded a) = capacity a" "clipboard (recorded a) = clipboard a"
  "undoStack (careTaker (recorded a)) = undoStack (careTaker a) @ [snapshot a]"
  "redoStack (careTaker (recorded a)) = []"
  by (simp_all add: recorded_def)

lemma recorded_ok: "buffer_ok (recorded a) = buffer_ok a"
  by (simp add: buffer_ok_def recorded_fields)

lemma snapshot_recorded: "snapshot (recorded a) = snapshot a"
  by (simp add: snapshot_def recorded_fields)

lemma memcpy_Some:
  "memcpy dst d src s n = Some r \<Longrightarrow>
   d + n \<le> length dst \<and> s + n \<le> length src \<and> length r = length dst"
  by (auto simp: memcpy_def split: if_splits)

lemma memmove_Some:
  "memmove b d s n = Some r \<Longrightarrow> d + n \<le> length b \<and> s + n \<le> length b \<and> length r = length b"
  by (auto simp: memmove_def dest: memcpy_Some)

lemma bind_SomeE:
  assumes "m \<bind> f = Some y"
  obtains x where "m = Some x" "f x = Some y"
  using assms by (auto simp: bind_eq_Some_conv)

lemma buffer_okD:
  "buffer_ok a \<Longrightarrow> length (data a) = capacity a"
  "buffer_ok a \<Longrightarrow> size_d a < capacity a"
  "buffer_ok a \<Longrightarrow> capacity a < size_t_range"
  "buffer_ok a \<Longrightarrow> size_d a < size_t_range"
  "buffer_ok a \<Longrightarrow> size_d a \<le> capacity a"
  "buffer_ok a \<Longrightarrow> size_d a \<le> length (data a)"
  "buffer_ok a \<Longrightarrow> size_d a < length (data a)"
  by (auto simp: buffer_ok_def)

lemma pushToRedo_ok:
  "buffer_ok a \<Longrightarrow>
   pushToRedo (careTaker a) (data a) (size_d a) (capacity a) =
     Some ((careTaker a)\<lparr>redoStack := redoStack (careTaker a) @ [snapshot a]\<rparr>)"
  by (simp add: pushToRedo_def Memento_new_ok snapshot_def buffer_ok_def)

lemma pushToUndo_ok:
  "buffer_ok a \<Longrightarrow>
   pushToUndo (careTaker a) (data a) (size_d a) (capacity a) =
     Some ((careTaker a)\<lparr>undoStack := undoStack (careTaker a) @ [snapshot a]\<rparr>)"
  by (simp add: pushToUndo_def Memento_new_ok snapshot_def buffer_ok_def)

lemma undo_empty:
  "buffer_ok a \<Longrightarrow> undoStack (careTaker a) = [] \<Longrightarrow>
   undo a = Some ([msg_cannot_undo],
                  a\<lparr>careTaker := (careTaker a)\<lparr>redoStack := redoStack (careTaker a) @ [snapshot a]\<rparr>\<rparr>)"
  by (simp add: undo_def pushToRedo_ok CareTaker_undo_def)

lemma redo_empty:
  "buffer_ok a \<Longrightarrow> redoStack (careTaker a) = [] \<Longrightarrow>
   redo a = Some ([msg_cannot_redo],
                  a\<lparr>careTaker := (careTaker a)\<lparr>undoStack := undoStack (careTaker a) @ [snapshot a]\<rparr>\<rparr>)"
  by (simp add: redo_def pushToUndo_ok CareTaker_redo_def)

section \<open>The loop of \<open>append\<close>\<close>

lemma resize_Some:
  "resize a n = Some a' \<Longrightarrow>
   size_d a \<le> n \<and> size_d a \<le> length (data a) \<and>
   a' = a\<lparr>data := take (size_d a) (data a) @ replicate (n - size_d a) None, capacity := n\<rparr>"
  by (auto simp: resize_def bind_eq_Some_conv dest!: memcpy_new_Some)

lemma resize_ok:
  "size_d a \<le> n \<Longrightarrow> size_d a \<le> length (data a) \<Longrightarrow>
   resize a n =
     Some (a\<lparr>data := take (size_d a) (data a) @ replicate (n - size_d a) None, capacity := n\<rparr>)"
  by (simp add: resize_def memcpy_new)

lemma grow_stop: "sz_add (size_d a) len < capacity a \<Longrightarrow> grow a len = Some a"
  by (subst grow.simps) simp

lemma grow_Some:
  assumes run: "grow a len = Some a'" and len: "length (data a) = capacity a"
  shows "length (data a') = capacity a' \<and> sz_add (size_d a') len < capacity a' \<and>
         size_d a' = size_d a \<and> careTaker a' = careTaker a \<and> clipboard a' = clipboard a \<and>
         take (size_d a) (data a') = take (size_d a) (data a) \<and>
         (capacity a < size_t_range \<longrightarrow> capacity a' < size_t_range)"
proof -
  let ?P = "\<lambda>x n y. length (data x) = capacity x \<longrightarrow>
         length (data y) = capacity y \<and> sz_add (size_d y) n < capacity y \<and>
         size_d y = size_d x \<and> careTaker y = careTaker x \<and> clipboard y = clipboard x \<and>
         take (size_d x) (data y) = take (size_d x) (data x) \<and>
         (capacity x < size_t_range \<longrightarrow> capacity y < size_t_range)"
  have "?P a len a'"
  proof (rule grow.raw_induct [where P = ?P, OF _ run])
    fix g x n y
    assume IH: "\<And>x n y. g x n = Some y \<Longrightarrow> ?P x n y"
      and eq: "(if capacity x \<le> sz_add (size_d x) n
                then resize x (sz_mul (capacity x) 2) \<bind> (\<lambda>a'. g a' n)
                else Some x) = Some y"
    show "?P x n y"
    proof (cases "capacity x \<le> sz_add (size_d x) n")
      case False
      with eq have "y = x" by simp
      with False show ?thesis by (auto simp: not_le)
    next
      case True
      with eq obtain b where b: "resize x (sz_mul (capacity x) 2) = Some b" "g b n = Some y"
        by (auto simp: bind_eq_Some_conv)
      from resize_Some [OF b(1)] have
        r: "size_d x \<le> sz_mul (capacity x) 2" "size_d x \<le> length (data x)"
           "b = x\<lparr>data := take (size_d x) (data x) @ replicate (sz_mul (capacity x) 2 - size_d x) None,
                  capacity := sz_mul (capacity x) 2\<rparr>"
        by simp_all
      from r have lb: "length (data b) = capacity b" by simp
      from IH [OF b(2)] lb have post: "length (data y) = capacity y"
        "sz_add (size_d y) n < capacity y" "size_d y = size_d b" "careTaker y = careTaker b"
        "clipboard y = clipboard b" "take (size_d b) (data y) = take (size_d b) (data b)"
        "capacity b < size_t_range \<longrightarrow> capacity y < size_t_range"
        by auto
      from r have "size_d b = size_d x" "careTaker b = careTaker x" "clipboard b = clipboard x"
        "take (size_d b) (data b) = take (size_d x) (data x)" "capacity b < size_t_range"
        by (simp_all add: sz_mul_less)
      with post show ?thesis by simp
    qed
  qed
  with len show ?thesis by auto
qed

lemma grow_step:
  "capacity a \<le> sz_add (size_d a) len \<Longrightarrow>
   grow a len = resize a (sz_mul (capacity a) 2) \<bind> (\<lambda>a'. grow a' len)"
  by (subst grow.simps) simp

section \<open>What each method returns\<close>

lemma append_d_Some:
  assumes ok: "buffer_ok a" and run: "append_d a t = Some a'"
  shows "buffer_ok a' \<and> redoStack (careTaker a') = [] \<and>
         undoStack (careTaker a') = undoStack (careTaker a) @ [snapshot a] \<and>
         clipboard a' = clipboard a"
proof -
  from run ok obtain a2 d where
    g: "grow (recorded a) (strlen t) = Some a2" and
    c: "strcpy (data a2) (size_d a2) t = Some d" and
    r: "a' = a2\<lparr>data := d, size_d := sz_add (size_d a2) (strlen t)\<rparr>"
    by (auto simp: append_d_def record_edit_ok Let_def bind_eq_Some_conv)
  from ok have "length (data (recorded a)) = capacity (recorded a)"
    by (simp add: recorded_fields buffer_okD)
  from grow_Some [OF g this] ok have
    p: "length (data a2) = capacity a2" "sz_add (size_d a2) (strlen t) < capacity a2"
       "careTaker a2 = careTaker (recorded a)" "clipboard a2 = clipboard a"
       "capacity a2 < size_t_range"
    by (auto simp: recorded_fields buffer_okD)
  from c have "length d = length (data a2)"
    by (simp add: strcpy_def memcpy_length)
  with p r show ?thesis
    by (simp add: buffer_ok_def recorded_fields)
qed

lemma strcpy_empty:
  "n < length d \<Longrightarrow> strcpy d n [] = Some (d[n := Some NUL])"
  by (simp add: strcpy_def memcpy_def cstr_def strlen_def upd_conv_take_nth_drop)

lemma append_d_empty:
  assumes ok: "buffer_ok a"
  shows "append_d a [] = Some ((recorded a)\<lparr>data := (data a)[size_d a := Some NUL]\<rparr>)"
proof -
  from ok have s: "sz_add (size_d a) 0 = size_d a"
    by (simp add: sz_add_eq buffer_okD)
  with ok have "grow (recorded a) 0 = Some (recorded a)"
    by (intro grow_stop) (simp add: recorded_fields buffer_okD)
  with ok s show ?thesis
    by (simp add: append_d_def record_edit_ok strlen_def cstr_def strcpy_empty [unfolded strlen_def cstr_def]
        recorded_fields buffer_okD)
qed

text \<open>The tail count of insertAndReplace for a valid call.\<close>
lemma tail_count:
  assumes "pos + rl \<le> s" "s + 1 < size_t_range"
  shows "sz_add (sz_sub (sz_sub s pos) rl) 1 = s - pos - rl + 1"
proof -
  from assms have "sz_sub s pos = s - pos" by (intro sz_sub_eq) simp_all
  moreover from assms have "sz_sub (s - pos) rl = s - pos - rl" by (intro sz_sub_eq) simp_all
  moreover from assms have "sz_add (s - pos - rl) 1 = s - pos - rl + 1" by (intro sz_add_eq) simp
  ultimately show ?thesis by simp
qed

lemma insertAndReplace_unfold:
  "buffer_ok a \<Longrightarrow>
   insertAndReplace a pos t rl =
     (if capacity a \<le> sz_sub (sz_add (size_d a) (strlen t)) rl
      then resize (recorded a) (sz_mul (sz_sub (sz_add (size_d a) (strlen t)) rl) 2)
      else Some (recorded a)) \<bind>
     (\<lambda>a2. memmove (data a2) (pos + strlen t) (pos + rl)
              (sz_add (sz_sub (sz_sub (size_d a2) pos) rl) 1) \<bind>
     (\<lambda>d1. memcpy d1 pos (map Some (cstr t)) 0 (strlen t) \<bind>
     (\<lambda>d2. Some (a2\<lparr>data := d2, size_d := sz_sub (sz_add (size_d a2) (strlen t)) rl\<rparr>))))"
  by (simp add: insertAndReplace_def record_edit_ok Let_def recorded_fields)

lemma insertAndReplace_Some:
  assumes ok: "buffer_ok a" and valid: "pos + rl \<le> size_d a"
    and run: "insertAndReplace a pos t rl = Some a'"
  shows "buffer_ok a' \<and> redoStack (careTaker a') = [] \<and>
         undoStack (careTaker a') = undoStack (careTaker a) @ [snapshot a] \<and>
         clipboard a' = clipboard a \<and> size_d a' = size_d a + strlen t - rl"
proof -
  let ?n = "sz_sub (sz_add (size_d a) (strlen t)) rl"
  from run obtain a2 where
    g: "(if capacity a \<le> ?n then resize (recorded a) (sz_mul ?n 2) else Some (recorded a)) = Some a2"
    and run2: "memmove (data a2) (pos + strlen t) (pos + rl)
              (sz_add (sz_sub (sz_sub (size_d a2) pos) rl) 1) \<bind>
     (\<lambda>d1. memcpy d1 pos (map Some (cstr t)) 0 (strlen t) \<bind>
     (\<lambda>d2. Some (a2\<lparr>data := d2, size_d := sz_sub (sz_add (size_d a2) (strlen t)) rl\<rparr>))) = Some a'"
    unfolding insertAndReplace_unfold [OF ok] by (rule bind_SomeE)
  from run2 obtain d1 where
    m: "memmove (data a2) (pos + strlen t) (pos + rl)
              (sz_add (sz_sub (sz_sub (size_d a2) pos) rl) 1) = Some d1"
    and run3: "memcpy d1 pos (map Some (cstr t)) 0 (strlen t) \<bind>
     (\<lambda>d2. Some (a2\<lparr>data := d2, size_d := sz_sub (sz_add (size_d a2) (strlen t)) rl\<rparr>)) = Some a'"
    by (rule bind_SomeE)
  from run3 obtain d2 where
    c: "memcpy d1 pos (map Some (cstr t)) 0 (strlen t) = Some d2"
    and r: "Some (a2\<lparr>data := d2, size_d := sz_sub (sz_add (size_d a2) (strlen t)) rl\<rparr>) = Some a'"
    by (rule bind_SomeE)
  have a2: "size_d a2 = size_d a \<and> length (data a2) = capacity a2 \<and> capacity a2 < size_t_range \<and>
            careTaker a2 = careTaker (recorded a) \<and> clipboard a2 = clipboard a"
  proof (cases "capacity a \<le> ?n")
    case True
    with g have "resize (recorded a) (sz_mul ?n 2) = Some a2" by simp
    from resize_Some [OF this] True show ?thesis
      by (auto simp: recorded_fields sz_mul_less)
  next
    case False
    with g have "a2 = recorded a" by simp
    with ok show ?thesis by (simp add: recorded_fields buffer_okD)
  qed
  from ok have s1: "size_d a + 1 < size_t_range"
    using buffer_okD(2,3) [of a] by simp
  from a2 tail_count [OF valid s1]
  have cnt: "sz_add (sz_sub (sz_sub (size_d a2) pos) rl) 1 = size_d a - pos - rl + 1" by simp
  from memmove_Some [OF m] valid a2
  have fit: "size_d a + strlen t - rl + 1 \<le> capacity a2" and l1: "length d1 = capacity a2"
    unfolding cnt by auto
  from valid ok fit a2 have n: "?n = size_d a + strlen t - rl"
    by (intro sz_add_sub_eq) (auto simp: buffer_okD)
  from memcpy_Some [OF c] l1 have l2: "length d2 = capacity a2" by simp
  from r have "a' = a2\<lparr>data := d2, size_d := sz_sub (sz_add (size_d a2) (strlen t)) rl\<rparr>" by simp
  with a2 n fit l2 show ?thesis
    by (auto simp: buffer_ok_def recorded_fields)
qed

lemma insertAndReplace_total:
  assumes ok: "buffer_ok a" and valid: "pos + rl \<le> size_d a"
    and room: "(size_d a + strlen t - rl) * 2 < size_t_range"
  shows "\<exists>a'. insertAndReplace a pos t rl = Some a'"
proof -
  let ?s = "size_d a" and ?l = "strlen t"
  let ?n = "?s + ?l - rl"
  from valid ok room have n: "sz_sub (sz_add ?s ?l) rl = ?n"
    by (intro sz_add_sub_eq) (auto simp: buffer_okD)
  from ok have s1: "?s + 1 < size_t_range"
    using buffer_okD(2,3) [of a] by simp
  note cnt = tail_count [OF valid s1]
  have "\<exists>a2. (if capacity a \<le> ?n then resize (recorded a) (sz_mul ?n 2) else Some (recorded a)) = Some a2
          \<and> size_d a2 = ?s \<and> length (data a2) = capacity a2 \<and> ?n + 1 \<le> capacity a2
          \<and> ?s + 1 \<le> capacity a2"
  proof (cases "capacity a \<le> ?n")
    case True
    from room have m: "sz_mul ?n 2 = ?n * 2" by (rule sz_mul_eq)
    from ok True have lt: "?s < ?n" "0 < ?n" using buffer_okD(2) [of a] by auto
    from ok lt have "resize (recorded a) (?n * 2) =
      Some ((recorded a)\<lparr>data := take (size_d (recorded a)) (data (recorded a)) @
               replicate (?n * 2 - size_d (recorded a)) None, capacity := ?n * 2\<rparr>)"
      by (intro resize_ok) (simp_all add: recorded_fields buffer_okD)
    with True m lt ok show ?thesis
      by (simp add: recorded_fields buffer_okD)
  next
    case False
    with ok show ?thesis
      using buffer_okD(1,2) [of a] by (simp add: recorded_fields)
  qed
  then obtain a2 where
    g: "(if capacity a \<le> ?n then resize (recorded a) (sz_mul ?n 2) else Some (recorded a)) = Some a2"
    and a2: "size_d a2 = ?s" "length (data a2) = capacity a2" "?n + 1 \<le> capacity a2"
      "?s + 1 \<le> capacity a2"
    by blast
  from valid a2 have b1: "pos + ?l + (?s - pos - rl + 1) \<le> length (data a2)"
    and b2: "pos + rl + (?s - pos - rl + 1) \<le> length (data a2)" by auto
  then obtain d1 where m: "memmove (data a2) (pos + ?l) (pos + rl) (?s - pos - rl + 1) = Some d1"
    and l1: "length d1 = length (data a2)"
    by (auto simp: memmove_def memcpy_def)
  from valid a2 l1 have "pos + ?l \<le> length d1" by auto
  then obtain d2 where c: "memcpy d1 pos (map Some (cstr t)) 0 ?l = Some d2"
    by (auto simp: memcpy_def strlen_def)
  from m c cnt a2 show ?thesis
    unfolding insertAndReplace_unfold [OF ok] n g by simp
qed

lemma deleteText_unfold:
  "buffer_ok a \<Longrightarrow>
   deleteText a pos len =
     (if pos \<ge> size_d a \<or> sz_add pos len > size_d a
      then Some ([msg_invalid_range], recorded a)
      else delete_cells (data a) (size_d a) pos len \<bind>
           (\<lambda>d2. Some ([], (recorded a)\<lparr>data := d2, size_d := sz_sub (size_d a) len\<rparr>)))"
  by (simp add: deleteText_def delete_cells_def record_edit_ok recorded_fields)

lemma delete_cells_Some:
  "delete_cells d n pos len = Some d2 \<Longrightarrow> length d2 = length d \<and> sz_sub n len < length d"
  by (auto simp: delete_cells_def bind_eq_Some_conv dest!: memmove_Some poke_Some)

lemma delete_cells_valid:
  assumes "pos + len \<le> n" "n < length d" "n < size_t_range"
  shows "\<exists>d2. delete_cells d n pos len = Some d2"
proof -
  from assms have "sz_sub n pos = n - pos" by (intro sz_sub_eq) simp_all
  moreover from assms have "sz_sub (n - pos) len = n - pos - len" by (intro sz_sub_eq) simp_all
  moreover from assms have "sz_sub n len = n - len" by (intro sz_sub_eq) simp_all
  ultimately show ?thesis using assms
    by (simp add: delete_cells_def memmove_def memcpy_def poke_def)
qed

lemma range_valid:
  assumes "pos < n" "pos + len \<le> n" "n < size_t_range"
  shows "\<not> (pos \<ge> n \<or> sz_add pos len > n)"
proof -
  from assms have "sz_add pos len = pos + len" by (intro sz_add_eq) simp
  with assms show ?thesis by simp
qed

lemma deleteText_Some:
  assumes ok: "buffer_ok a" and run: "deleteText a pos len = Some (out, a')"
  shows "buffer_ok a' \<and> redoStack (careTaker a') = [] \<and> clipboard a' = clipboard a"
proof (cases "pos \<ge> size_d a \<or> sz_add pos len > size_d a")
  case True
  with run ok have "a' = recorded a" by (simp add: deleteText_unfold)
  with ok show ?thesis by (simp add: recorded_ok recorded_fields)
next
  case False
  with run ok obtain d2 where d: "delete_cells (data a) (size_d a) pos len = Some d2"
    and r: "a' = (recorded a)\<lparr>data := d2, size_d := sz_sub (size_d a) len\<rparr>"
    by (auto simp: deleteText_unfold bind_eq_Some_conv)
  from delete_cells_Some [OF d] r ok show ?thesis
    by (simp add: buffer_ok_def recorded_fields)
qed

lemma deleteText_valid:
  assumes ok: "buffer_ok a" and valid: "pos < size_d a" "pos + len \<le> size_d a"
  shows "\<exists>d2. delete_cells (data a) (size_d a) pos len = Some d2 \<and>
           deleteText a pos len =
             Some ([], (recorded a)\<lparr>data := d2, size_d := size_d a - len\<rparr>)"
proof -
  from ok valid obtain d2 where d: "delete_cells (data a) (size_d a) pos len = Some d2"
    using delete_cells_valid [of pos len "size_d a" "data a"] by (auto simp: buffer_okD)
  from ok valid have "sz_sub (size_d a) len = size_d a - len"
    by (intro sz_sub_eq) (simp_all add: buffer_okD)
  with d ok range_valid [OF valid buffer_okD(4) [OF ok]] show ?thesis
    by (simp add: deleteText_unfold)
qed

lemma those_map_the: "None \<notin> set xs \<Longrightarrow> those xs = Some (map the xs)"
proof (induction xs)
  case Nil
  show ?case by simp
next
  case (Cons x xs)
  then obtain y where "x = Some y" by (cases x) auto
  with Cons show ?case by simp
qed

lemma copyText_valid:
  assumes ok: "buffer_ok a" and init: "initialised a"
    and valid: "pos < size_d a" "pos + len \<le> size_d a"
  shows "copyText a pos len =
           Some ([], a\<lparr>clipboard := map the (take len (drop pos (data a)))\<rparr>)"
proof -
  have "take len (drop pos (data a)) = drop pos (take (pos + len) (data a))"
    by (simp add: drop_take)
  then have "set (take len (drop pos (data a))) \<subseteq> set (take (pos + len) (data a))"
    by (simp add: set_drop_subset)
  also from valid have "\<dots> \<subseteq> set (take (size_d a) (data a))"
    by (intro set_take_subset_set_take) simp
  finally have "None \<notin> set (take len (drop pos (data a)))"
    using init by (auto simp: initialised_def)
  then have "those (take len (drop pos (data a))) = Some (map the (take len (drop pos (data a))))"
    by (rule those_map_the)
  with ok valid range_valid [OF valid buffer_okD(4) [OF ok]] show ?thesis
    using buffer_okD(7) [OF ok] by (simp add: copyText_def peek_string_def)
qed

lemma copyText_Some:
  "copyText a pos len = Some (out, a') \<Longrightarrow> \<exists>s. a' = a\<lparr>clipboard := s\<rparr>"
  by (auto simp: copyText_def bind_eq_Some_conv split: if_splits intro: exI [of _ "clipboard a"])

lemma clipboard_update_fields:
  "buffer_ok (a\<lparr>clipboard := s\<rparr>) = buffer_ok a"
  "snapshot (a\<lparr>clipboard := s\<rparr>) = snapshot a"
  "initialised (a\<lparr>clipboard := s\<rparr>) = initialised a"
  by (simp_all add: buffer_ok_def snapshot_def initialised_def)

lemma copy_then_delete_Some:
  assumes ok: "buffer_ok a" and run: "copy_then_delete a pos len = Some (out, a')"
  shows "buffer_ok a' \<and> redoStack (careTaker a') = []"
proof -
  from run obtain o1 a1 o2 where c: "copyText a pos len = Some (o1, a1)"
    and d: "deleteText a1 pos len = Some (o2, a')"
    by (auto simp: copy_then_delete_def bind_eq_Some_conv)
  from copyText_Some [OF c] ok have "buffer_ok a1" by (auto simp: clipboard_update_fields)
  from deleteText_Some [OF this d] show ?thesis by simp
qed

lemma cutText_unfold:
  "buffer_ok a \<Longrightarrow>
   cutText a pos len =
     (if pos \<ge> size_d a \<or> sz_add pos len > size_d a
      then Some ([msg_invalid_range], recorded a)
      else copy_then_delete (recorded a) pos len)"
  by (simp add: cutText_def copy_then_delete_def record_edit_ok recorded_fields)

lemma cutText_Some:
  assumes ok: "buffer_ok a" and run: "cutText a pos len = Some (out, a')"
  shows "buffer_ok a' \<and> redoStack (careTaker a') = []"
proof (cases "pos \<ge> size_d a \<or> sz_add pos len > size_d a")
  case True
  with run ok have "a' = recorded a" by (simp add: cutText_unfold)
  with ok show ?thesis by (simp add: recorded_ok recorded_fields)
next
  case False
  with run ok have "copy_then_delete (recorded a) pos len = Some (out, a')"
    by (simp add: cutText_unfold)
  with ok show ?thesis by (intro copy_then_delete_Some) (simp_all add: recorded_ok)
qed

lemma pasteText_unfold:
  "buffer_ok a \<Longrightarrow>
   pasteText a pos =
     (if pos > size_d a then Some ([msg_invalid_position], recorded a)
      else insertAndReplace (recorded a) pos (clipboard a) 0 \<bind> (\<lambda>a2. Some ([], a2)))"
  by (simp add: pasteText_def record_edit_ok recorded_fields)

lemma pasteText_Some:
  assumes ok: "buffer_ok a" and run: "pasteText a pos = Some (out, a')"
  shows "buffer_ok a' \<and> redoStack (careTaker a') = []"
proof (cases "pos > size_d a")
  case True
  with run ok have "a' = recorded a" by (simp add: pasteText_unfold)
  with ok show ?thesis by (simp add: recorded_ok recorded_fields)
next
  case False
  with run ok have i: "insertAndReplace (recorded a) pos (clipboard a) 0 = Some a'"
    by (auto simp: pasteText_unfold bind_eq_Some_conv)
  from False have "pos + 0 \<le> size_d (recorded a)" by (simp add: recorded_fields)
  from insertAndReplace_Some [OF _ this i] ok show ?thesis by (simp add: recorded_ok)
qed

lemma cutText_valid:
  assumes ok: "buffer_ok a" and init: "initialised a"
    and valid: "pos < size_d a" "pos + len \<le> size_d a"
  shows "\<exists>d2. delete_cells (data a) (size_d a) pos len = Some d2 \<and>
           cutText a pos len =
             Some ([], (recorded ((recorded a)\<lparr>clipboard := map the (take len (drop pos (data a)))\<rparr>))
                         \<lparr>data := d2, size_d := size_d a - len\<rparr>)"
proof -
  let ?s = "map the (take len (drop pos (data a)))"
  let ?b = "(recorded a)\<lparr>clipboard := ?s\<rparr>"
  from ok have okr: "buffer_ok (recorded a)" by (simp add: recorded_ok)
  from init have initr: "initialised (recorded a)" by (simp add: initialised_def recorded_fields)
  from valid have validr: "pos < size_d (recorded a)" "pos + len \<le> size_d (recorded a)"
    by (simp_all add: recorded_fields)
  from copyText_valid [OF okr initr validr]
  have c: "copyText (recorded a) pos len = Some ([], ?b)" by (simp add: recorded_fields)
  from okr have okb: "buffer_ok ?b" by (simp add: clipboard_update_fields)
  from validr have validb: "pos < size_d ?b" "pos + len \<le> size_d ?b" by simp_all
  from deleteText_valid [OF okb validb] obtain d2 where
    d: "delete_cells (data a) (size_d a) pos len = Some d2"
    and e: "deleteText ?b pos len = Some ([], (recorded ?b)\<lparr>data := d2, size_d := size_d a - len\<rparr>)"
    by (auto simp: recorded_fields)
  from ok c e range_valid [OF valid buffer_okD(4) [OF ok]]
  have "cutText a pos len = Some ([], (recorded ?b)\<lparr>data := d2, size_d := size_d a - len\<rparr>)"
    by (simp add: cutText_unfold copy_then_delete_def)
  with d show ?thesis by blast
qed

lemma copy_then_delete_valid:
  assumes ok: "buffer_ok a" and init: "initialised a"
    and valid: "pos < size_d a" "pos + len \<le> size_d a"
  shows "\<exists>d2. delete_cells (data a) (size_d a) pos len = Some d2 \<and>
           copy_then_delete a pos len =
             Some ([], (recorded (a\<lparr>clipboard := map the (take len (drop pos (data a)))\<rparr>))
                         \<lparr>data := d2, size_d := size_d a - len\<rparr>)"
proof -
  let ?s = "map the (take len (drop pos (data a)))"
  let ?b = "a\<lparr>clipboard := ?s\<rparr>"
  note c = copyText_valid [OF ok init valid]
  from ok have okb: "buffer_ok ?b" by (simp add: clipboard_update_fields)
  from valid have validb: "pos < size_d ?b" "pos + len \<le> size_d ?b" by simp_all
  from deleteText_valid [OF okb validb] obtain d2 where
    d: "delete_cells (data a) (size_d a) pos len = Some d2"
    and e: "deleteText ?b pos len = Some ([], (recorded ?b)\<lparr>data := d2, size_d := size_d a - len\<rparr>)"
    by auto
  from c e have "copy_then_delete a pos len =
      Some ([], (recorded ?b)\<lparr>data := d2, size_d := size_d a - len\<rparr>)"
    by (simp add: copy_then_delete_def)
  with d show ?thesis by blast
qed

section \<open>Evaluating the methods on given arrays\<close>

lemmas exec_simps =
  append_d_def insertAndReplace_def deleteText_def copyText_def cutText_def pasteText_def
  undo_def redo_def restore_def resize_def record_edit_def
  saveState_def pushToUndo_def pushToRedo_def CareTaker_undo_def CareTaker_redo_def
  Memento_new_def memcpy_def memmove_def strcpy_def poke_def peek_string_def new_char_def
  strlen_def cstr_def not_NUL_def NUL_def sz_add_def sz_sub_def sz_mul_def size_t_range_def
  grow_stop grow_step Let_def silent_def copy_then_delete_def

lemmas fixture_defs =
  DynamicArray_new_def hello_buffer_def hello_copied_def undone_buffer_def snapshot_def

lemma hello_buffer_reached: "run DynamicArray_new [Append ''hello''] = Some ([], hello_buffer)"
  by (simp add: exec_simps fixture_defs)

lemma hello_copied_reached:
  "run DynamicArray_new [Append ''hello'', Copy 1 3] = Some ([], hello_copied)"
  by (simp add: exec_simps fixture_defs)

lemma undone_buffer_reached:
  "run DynamicArray_new [Append ''hello'', Append ''!'', Undo] = Some ([], undone_buffer)"
  by (simp add: exec_simps fixture_defs)

lemma fixtures_ok:
  "buffer_ok DynamicArray_new" "buffer_ok hello_buffer" "buffer_ok hello_copied"
  "buffer_ok undone_buffer"
  "initialised hello_buffer" "initialised hello_copied" "initialised undone_buffer"
  by (simp_all add: buffer_ok_def initialised_def fixture_defs new_char_def size_t_range_def)

section \<open>What the edits leave in the buffer\<close>

text \<open>
  The content after each edit, and the invariant: the edits keep the buffer within its
  allocation, the content initialised and the mementos well formed.
\<close>

lemma snapshot_ok: "buffer_ok a \<Longrightarrow> initialised a \<Longrightarrow> memento_ok (snapshot a)"
  by (simp add: memento_ok_def snapshot_def initialised_def buffer_okD)

lemma recorded_history_ok: "array_inv a \<Longrightarrow> history_ok (recorded a)"
  by (simp add: array_inv_def history_ok_def recorded_fields snapshot_ok)

lemma recorded_inv: "array_inv a \<Longrightarrow> array_inv (recorded a)"
  by (simp add: array_inv_def recorded_history_ok recorded_ok initialised_def recorded_fields)

lemma append_d_content:
  assumes ok: "buffer_ok a" and run: "append_d a t = Some a'"
  shows "size_d a' = size_d a + strlen t
         \<and> take (size_d a') (data a') = take (size_d a) (data a) @ map Some (cstr t)
         \<and> terminated a' \<and> careTaker a' = careTaker (recorded a)"
proof -
  let ?l = "strlen t"
  from run ok obtain a2 d where
    g: "grow (recorded a) ?l = Some a2" and
    c: "strcpy (data a2) (size_d a2) t = Some d" and
    r: "a' = a2\<lparr>data := d, size_d := sz_add (size_d a2) ?l\<rparr>"
    by (auto simp: append_d_def record_edit_ok Let_def bind_eq_Some_conv)
  from ok have "length (data (recorded a)) = capacity (recorded a)"
    by (simp add: recorded_fields buffer_okD)
  from grow_Some [OF g this] ok have
    p: "length (data a2) = capacity a2" "size_d a2 = size_d a"
       "careTaker a2 = careTaker (recorded a)" "capacity a2 < size_t_range"
       "take (size_d a) (data a2) = take (size_d a) (data a)"
    by (auto simp: recorded_fields buffer_okD)
  from c p have fit: "size_d a + ?l + 1 \<le> length (data a2)"
    and d: "d = take (size_d a) (data a2) @ (map Some (cstr t) @ [Some NUL])
                @ drop (size_d a + ?l + 1) (data a2)"
    by (auto simp: strcpy_def memcpy_def strlen_def split: if_splits)
  from fit p have "sz_add (size_d a) ?l = size_d a + ?l"
    by (intro sz_add_eq) simp
  with r p have s: "size_d a' = size_d a + ?l" by simp
  from fit have l: "length (take (size_d a) (data a2)) = size_d a" by simp
  have "take (size_d a + ?l) d = take (size_d a) (data a2) @ map Some (cstr t)"
    unfolding d using l by (simp add: strlen_def)
  moreover have "d ! (size_d a + ?l) = Some NUL"
    unfolding d using l by (simp add: nth_append strlen_def)
  moreover from c have "length d = length (data a2)"
    by (simp add: strcpy_def memcpy_length)
  ultimately show ?thesis using r s p fit
    by (simp add: terminated_def)
qed

lemma append_d_inv:
  assumes inv: "array_inv a" and run: "append_d a t = Some a'"
  shows "array_inv a'"
proof -
  from inv have ok: "buffer_ok a" by (simp add: array_inv_def)
  from append_d_Some [OF ok run] have ok': "buffer_ok a'" by simp
  from append_d_content [OF ok run] inv have "initialised a'" "history_ok a'"
    using recorded_history_ok [OF inv]
    by (auto simp: initialised_def array_inv_def history_ok_def)
  with ok' show ?thesis by (simp add: array_inv_def)
qed

lemma insertAndReplace_content:
  assumes ok: "buffer_ok a" and valid: "pos + rl \<le> size_d a"
    and run: "insertAndReplace a pos t rl = Some a'"
  shows "take (size_d a') (data a') =
           take pos (data a) @ map Some (cstr t) @ drop (pos + rl) (take (size_d a) (data a))
         \<and> careTaker a' = careTaker (recorded a)"
proof -
  let ?n = "sz_sub (sz_add (size_d a) (strlen t)) rl"
  let ?s = "size_d a" and ?l = "strlen t"
  from run obtain a2 where
    g: "(if capacity a \<le> ?n then resize (recorded a) (sz_mul ?n 2) else Some (recorded a)) = Some a2"
    and run2: "memmove (data a2) (pos + strlen t) (pos + rl)
              (sz_add (sz_sub (sz_sub (size_d a2) pos) rl) 1) \<bind>
     (\<lambda>d1. memcpy d1 pos (map Some (cstr t)) 0 (strlen t) \<bind>
     (\<lambda>d2. Some (a2\<lparr>data := d2, size_d := sz_sub (sz_add (size_d a2) (strlen t)) rl\<rparr>))) = Some a'"
    unfolding insertAndReplace_unfold [OF ok] by (rule bind_SomeE)
  from run2 obtain d1 where
    m: "memmove (data a2) (pos + strlen t) (pos + rl)
              (sz_add (sz_sub (sz_sub (size_d a2) pos) rl) 1) = Some d1"
    and run3: "memcpy d1 pos (map Some (cstr t)) 0 (strlen t) \<bind>
     (\<lambda>d2. Some (a2\<lparr>data := d2, size_d := sz_sub (sz_add (size_d a2) (strlen t)) rl\<rparr>)) = Some a'"
    by (rule bind_SomeE)
  from run3 obtain d2 where
    c: "memcpy d1 pos (map Some (cstr t)) 0 (strlen t) = Some d2"
    and r: "Some (a2\<lparr>data := d2, size_d := sz_sub (sz_add (size_d a2) (strlen t)) rl\<rparr>) = Some a'"
    by (rule bind_SomeE)
  have a2: "size_d a2 = ?s \<and> careTaker a2 = careTaker (recorded a) \<and>
            take ?s (data a2) = take ?s (data a)"
  proof (cases "capacity a \<le> ?n")
    case True
    with g have "resize (recorded a) (sz_mul ?n 2) = Some a2" by simp
    from resize_Some [OF this] show ?thesis
      by (auto simp: recorded_fields)
  next
    case False
    with g have "a2 = recorded a" by simp
    then show ?thesis by (simp add: recorded_fields)
  qed
  from insertAndReplace_Some [OF ok valid run] have s': "size_d a' = ?s + ?l - rl" by simp
  from ok have s1: "?s + 1 < size_t_range"
    using buffer_okD(2,3) [of a] by simp
  from a2 tail_count [OF valid s1]
  have cnt: "sz_add (sz_sub (sz_sub (size_d a2) pos) rl) 1 = ?s - pos - rl + 1" by simp
  let ?D = "data a2" and ?k = "?s - pos - rl"
  from m have fit: "pos + ?l + (?k + 1) \<le> length ?D" "pos + rl + (?k + 1) \<le> length ?D"
    and d1: "d1 = take (pos + ?l) ?D @ take (?k + 1) (drop (pos + rl) ?D)
                    @ drop (pos + ?l + (?k + 1)) ?D"
    unfolding cnt by (auto simp: memmove_def memcpy_def split: if_splits)
  from c have d2: "d2 = take pos d1 @ map Some (cstr t) @ drop (pos + ?l) d1"
    by (auto simp: memcpy_def strlen_def split: if_splits)
  from fit have lD: "pos + ?l \<le> length ?D" by simp
  then have t1: "take pos d1 = take pos ?D"
    unfolding d1 by simp
  from lD have t2: "drop (pos + ?l) d1 = take (?k + 1) (drop (pos + rl) ?D)
                    @ drop (pos + ?l + (?k + 1)) ?D"
    unfolding d1 by simp
  from fit have l3: "length (take (?k + 1) (drop (pos + rl) ?D)) = ?k + 1" by simp
  have t3: "take ?k (drop (pos + ?l) d1) = take ?k (drop (pos + rl) ?D)"
    unfolding t2 using l3 by (simp add: min_def)
  from lD have lp: "length (take pos ?D) = pos" by simp
  from valid have n: "?s + ?l - rl = pos + ?l + ?k" by simp
  have "take (?s + ?l - rl) d2 = take pos ?D @ map Some (cstr t) @ take ?k (drop (pos + rl) ?D)"
    unfolding n d2 t1 using lp t3 by (simp add: strlen_def)
  moreover from valid a2 have "take pos ?D = take pos (data a)"
    by (metis min.absorb1 take_take add_leD1)
  moreover have "take ?k (drop (pos + rl) ?D) = drop (pos + rl) (take ?s (data a))"
  proof -
    have "take ?k (drop (pos + rl) ?D) = drop (pos + rl) (take ?s ?D)"
      by (simp add: drop_take)
    with a2 show ?thesis by simp
  qed
  moreover from r have "a' = a2\<lparr>data := d2, size_d := sz_sub (sz_add (size_d a2) (strlen t)) rl\<rparr>"
    by simp
  ultimately show ?thesis using s' a2 by simp
qed

lemma insertAndReplace_inv:
  assumes inv: "array_inv a" and valid: "pos + rl \<le> size_d a"
    and run: "insertAndReplace a pos t rl = Some a'"
  shows "array_inv a'"
proof -
  from inv have ok: "buffer_ok a" and init: "None \<notin> set (take (size_d a) (data a))"
    by (simp_all add: array_inv_def initialised_def)
  from insertAndReplace_Some [OF ok valid run] have ok': "buffer_ok a'" by simp
  note c = insertAndReplace_content [OF ok valid run]
  from valid have "set (take pos (data a)) \<subseteq> set (take (size_d a) (data a))"
    by (intro set_take_subset_set_take) simp
  moreover have "set (drop (pos + rl) (take (size_d a) (data a))) \<subseteq> set (take (size_d a) (data a))"
    by (rule set_drop_subset)
  ultimately have "initialised a'"
    using c init by (auto simp: initialised_def)
  moreover from c recorded_history_ok [OF inv] have "history_ok a'"
    by (simp add: history_ok_def)
  ultimately show ?thesis using ok' by (simp add: array_inv_def)
qed

lemma delete_cells_content:
  assumes "pos < n" "sz_add pos len \<le> n" "n < length d" "length d < size_t_range"
    and run: "delete_cells d n pos len = Some d2"
  shows "pos + len \<le> n \<and> sz_sub n len = n - len
         \<and> take (n - len) d2 = take pos d @ drop (pos + len) (take n d)
         \<and> d2 ! (n - len) = Some NUL \<and> length d2 = length d"
proof -
  from run obtain d1 where
    m: "memmove d pos (pos + len) (sz_sub (sz_sub n pos) len) = Some d1"
    and p: "poke d1 (sz_sub n len) NUL = Some d2"
    unfolding delete_cells_def by (rule bind_SomeE)
  from memmove_Some [OF m] assms(4) have "pos + len < size_t_range" by simp
  then have "sz_add pos len = pos + len" by (rule sz_add_eq)
  with assms have v: "pos + len \<le> n" by simp
  from assms have nr: "n < size_t_range" by simp
  from v nr have s1: "sz_sub n pos = n - pos" by (intro sz_sub_eq) simp_all
  from v nr have s2: "sz_sub (n - pos) len = n - pos - len" by (intro sz_sub_eq) simp_all
  from v nr have s3: "sz_sub n len = n - len" by (intro sz_sub_eq) simp_all
  let ?k = "n - pos - len"
  from m have d1: "d1 = take pos d @ take ?k (drop (pos + len) d) @ drop (pos + ?k) d"
    unfolding s1 s2 by (auto simp: memmove_def memcpy_def split: if_splits)
  from p have d2: "d2 = d1[n - len := Some NUL]" and l: "n - len < length d1"
    unfolding s3 by (auto simp: poke_def split: if_splits)
  from assms v have lk: "length (take pos d @ take ?k (drop (pos + len) d)) = n - len"
    by simp
  have "take (n - len) d2 = take (n - len) d1" unfolding d2 by simp
  also have "\<dots> = take pos d @ take ?k (drop (pos + len) d)"
    unfolding d1 using lk by (metis append.assoc append_eq_conv_conj)
  also have "take ?k (drop (pos + len) d) = drop (pos + len) (take n d)"
    by (simp add: drop_take)
  finally have "take (n - len) d2 = take pos d @ drop (pos + len) (take n d)" .
  moreover from l have "d2 ! (n - len) = Some NUL" unfolding d2 by simp
  moreover from memmove_Some [OF m] poke_Some [OF p] have "length d2 = length d" by simp
  ultimately show ?thesis using v s3 by simp
qed

lemma deleteText_inv:
  assumes inv: "array_inv a" and run: "deleteText a pos len = Some (out, a')"
  shows "array_inv a'"
proof (cases "pos \<ge> size_d a \<or> sz_add pos len > size_d a")
  case True
  from inv have "buffer_ok a" by (simp add: array_inv_def)
  with True run have "a' = recorded a" by (simp add: deleteText_unfold)
  with inv show ?thesis by (simp add: recorded_inv)
next
  case False
  from inv have ok: "buffer_ok a" and init: "None \<notin> set (take (size_d a) (data a))"
    by (simp_all add: array_inv_def initialised_def)
  from False run ok obtain d2 where d: "delete_cells (data a) (size_d a) pos len = Some d2"
    and r: "a' = (recorded a)\<lparr>data := d2, size_d := sz_sub (size_d a) len\<rparr>"
    by (auto simp: deleteText_unfold bind_eq_Some_conv)
  from False have c: "pos < size_d a" "sz_add pos len \<le> size_d a" by simp_all
  from ok have b: "size_d a < length (data a)" "length (data a) < size_t_range"
    by (simp_all add: buffer_okD)
  note k = delete_cells_content [OF c b d]
  from k have "set (take (size_d a - len) d2)
      \<subseteq> set (take pos (data a)) \<union> set (drop (pos + len) (take (size_d a) (data a)))"
    by simp
  also from c have "set (take pos (data a)) \<subseteq> set (take (size_d a) (data a))"
    by (intro set_take_subset_set_take) simp
  also have "set (drop (pos + len) (take (size_d a) (data a))) \<subseteq> set (take (size_d a) (data a))"
    by (rule set_drop_subset)
  finally have "None \<notin> set (take (size_d a - len) d2)"
    using init by auto
  with r k have "initialised a'" by (simp add: initialised_def)
  moreover from r recorded_history_ok [OF inv] have "history_ok a'"
    by (simp add: history_ok_def)
  moreover from deleteText_Some [OF ok run] have "buffer_ok a'" by simp
  ultimately show ?thesis by (simp add: array_inv_def)
qed

lemma clipboard_update_inv: "array_inv (a\<lparr>clipboard := s\<rparr>) = array_inv a"
  by (simp add: array_inv_def clipboard_update_fields history_ok_def)

lemma copyText_inv:
  assumes inv: "array_inv a" and run: "copyText a pos len = Some (out, a')"
  shows "array_inv a'"
  using copyText_Some [OF run] inv by (auto simp: clipboard_update_inv)

lemma copy_then_delete_inv:
  assumes inv: "array_inv a" and run: "copy_then_delete a pos len = Some (out, a')"
  shows "array_inv a'"
proof -
  from run obtain o1 a1 o2 where c: "copyText a pos len = Some (o1, a1)"
    and d: "deleteText a1 pos len = Some (o2, a')"
    by (auto simp: copy_then_delete_def bind_eq_Some_conv)
  from deleteText_inv [OF copyText_inv [OF inv c] d] show ?thesis .
qed

lemma cutText_inv:
  assumes inv: "array_inv a" and run: "cutText a pos len = Some (out, a')"
  shows "array_inv a'"
proof (cases "pos \<ge> size_d a \<or> sz_add pos len > size_d a")
  case True
  from inv have "buffer_ok a" by (simp add: array_inv_def)
  with True run have "a' = recorded a" by (simp add: cutText_unfold)
  with inv show ?thesis by (simp add: recorded_inv)
next
  case False
  from inv have "buffer_ok a" by (simp add: array_inv_def)
  with False run have "copy_then_delete (recorded a) pos len = Some (out, a')"
    by (simp add: cutText_unfold)
  from copy_then_delete_inv [OF recorded_inv [OF inv] this] show ?thesis .
qed

lemma pasteText_inv:
  assumes inv: "array_inv a" and run: "pasteText a pos = Some (out, a')"
  shows "array_inv a'"
proof (cases "pos > size_d a")
  case True
  from inv have "buffer_ok a" by (simp add: array_inv_def)
  with True run have "a' = recorded a" by (simp add: pasteText_unfold)
  with inv show ?thesis by (simp add: recorded_inv)
next
  case False
  from inv have "buffer_ok a" by (simp add: array_inv_def)
  with False run have i: "insertAndReplace (recorded a) pos (clipboard a) 0 = Some a'"
    by (auto simp: pasteText_unfold bind_eq_Some_conv)
  from False have "pos + 0 \<le> size_d (recorded a)" by (simp add: recorded_fields)
  from insertAndReplace_inv [OF recorded_inv [OF inv] this i] show ?thesis .
qed

section \<open>Termination of \<open>append\<close>\<close>

lemma grow_total:
  assumes "buffer_ok a" and "(size_d a + len) * 2 < size_t_range"
  shows "\<exists>a'. grow a len = Some a'"
  using assms
proof (induction "size_d a + len + 1 - capacity a" arbitrary: a rule: less_induct)
  case less
  from less.prems have s: "sz_add (size_d a) len = size_d a + len"
    by (intro sz_add_eq) simp
  show ?case
  proof (cases "capacity a \<le> size_d a + len")
    case False
    with s have "grow a len = Some a" by (intro grow_stop) simp
    then show ?thesis ..
  next
    case True
    let ?b = "a\<lparr>data := take (size_d a) (data a) @ replicate (capacity a * 2 - size_d a) None,
                capacity := capacity a * 2\<rparr>"
    from True less.prems have m: "sz_mul (capacity a) 2 = capacity a * 2"
      by (intro sz_mul_eq) simp
    from less.prems have r: "resize a (capacity a * 2) = Some ?b"
      using buffer_okD(2,6) [of a] by (intro resize_ok) simp_all
    from True less.prems have okb: "buffer_ok ?b"
      using buffer_okD(2,6) [of a] by (simp add: buffer_ok_def)
    from less.prems(1) have "0 < capacity a" using buffer_okD(2) [of a] by simp
    with True have dec: "size_d ?b + len + 1 - capacity ?b < size_d a + len + 1 - capacity a"
      by simp
    from less.prems(2) have room: "(size_d ?b + len) * 2 < size_t_range" by simp
    from less.hyps [OF dec okb room] obtain a' where "grow ?b len = Some a'" ..
    with True s r m have "grow a len = Some a'"
      by (simp add: grow_step)
    then show ?thesis ..
  qed
qed

lemma append_d_total:
  assumes ok: "buffer_ok a" and room: "(size_d a + strlen t) * 2 < size_t_range"
  shows "\<exists>a'. append_d a t = Some a'"
proof -
  from ok room have "\<exists>a2. grow (recorded a) (strlen t) = Some a2"
    by (intro grow_total) (simp_all add: recorded_ok recorded_fields)
  then obtain a2 where g: "grow (recorded a) (strlen t) = Some a2" ..
  from ok have "length (data (recorded a)) = capacity (recorded a)"
    by (simp add: recorded_fields buffer_okD)
  from grow_Some [OF g this] ok have
    p: "length (data a2) = capacity a2" "sz_add (size_d a2) (strlen t) < capacity a2"
       "size_d a2 = size_d a"
    by (auto simp: recorded_fields)
  from room have "sz_add (size_d a) (strlen t) = size_d a + strlen t"
    by (intro sz_add_eq) simp
  with p have "size_d a2 + (strlen t + 1) \<le> length (data a2)" by simp
  then obtain d where "strcpy (data a2) (size_d a2) t = Some d"
    by (auto simp: strcpy_def memcpy_def strlen_def)
  with g ok show ?thesis
    by (simp add: append_d_def record_edit_ok)
qed

section \<open>Undo after one edit\<close>

text \<open>
  What \<open>undo()\<close> does when the top of the undo stack is the memento of an array \<open>a\<close>
  and the current array is \<open>a'\<close>. If the current size fits the saved capacity, the size,
  the capacity and the characters of \<open>a\<close> come back and the terminator is written. If it
  does not, \<open>resize\<close> copies \<open>size\<close> cells into an allocation of the saved capacity,
  which is too short for them.
\<close>

lemma restore_snapshot:
  assumes ok: "buffer_ok a" and ok': "buffer_ok x" and fits: "size_d x \<le> capacity a"
  shows "\<exists>b. restore x (snapshot a) = Some b
           \<and> size_d b = size_d a \<and> capacity b = capacity a
           \<and> take (size_d a) (data b) = take (size_d a) (data a)
           \<and> terminated b \<and> buffer_ok b
           \<and> careTaker b = careTaker x \<and> clipboard b = clipboard x"
proof -
  let ?m = "snapshot a"
  have m: "savedSize ?m = size_d a" "savedCapacity ?m = capacity a"
    "savedData ?m = take (size_d a) (data a) @ replicate (capacity a - size_d a) None"
    by (simp_all add: snapshot_def)
  have "\<exists>x1. (if capacity x \<noteq> capacity a then resize x (capacity a) else Some x) = Some x1
          \<and> size_d x1 = size_d x \<and> capacity x1 = capacity a \<and> length (data x1) = capacity a
          \<and> careTaker x1 = careTaker x \<and> clipboard x1 = clipboard x"
  proof (cases "capacity x = capacity a")
    case True
    with ok' show ?thesis by (simp add: buffer_okD)
  next
    case False
    with fits ok' show ?thesis by (simp add: resize_ok buffer_okD)
  qed
  then obtain x1 where
    r: "(if capacity x \<noteq> capacity a then resize x (capacity a) else Some x) = Some x1"
    and x1: "size_d x1 = size_d x" "capacity x1 = capacity a" "length (data x1) = capacity a"
      "careTaker x1 = careTaker x" "clipboard x1 = clipboard x"
    by blast
  let ?d1 = "take (size_d a) (data a) @ drop (size_d a) (data x1)"
  from ok x1 have c: "memcpy (data x1) 0 (savedData ?m) 0 (savedSize ?m) = Some ?d1"
    by (simp add: memcpy_def m buffer_okD)
  from ok x1 have l: "length ?d1 = capacity a"
    using buffer_okD(1,5) [OF ok] by simp
  with ok have p: "poke ?d1 (savedSize ?m) NUL = Some (?d1[size_d a := Some NUL])"
    by (simp add: poke_def m buffer_okD del: length_append)
  from c p have "restore x ?m = Some (x1\<lparr>data := ?d1[size_d a := Some NUL], size_d := size_d a\<rparr>)"
    unfolding restore_def m(1,2) r by simp
  moreover from ok l have "take (size_d a) (?d1[size_d a := Some NUL]) = take (size_d a) (data a)"
    using buffer_okD(6) [OF ok] by simp
  moreover from ok l have "terminated (x1\<lparr>data := ?d1[size_d a := Some NUL], size_d := size_d a\<rparr>)"
    using buffer_okD(2) [OF ok] by (simp add: terminated_def del: length_append)
  moreover from ok l x1 have "buffer_ok (x1\<lparr>data := ?d1[size_d a := Some NUL], size_d := size_d a\<rparr>)"
    by (simp add: buffer_ok_def del: length_append)
  ultimately show ?thesis using x1 by simp
qed

lemma undo_unfold:
  assumes ok': "buffer_ok a'" and top: "undoStack (careTaker a') = us @ [m]"
  shows "undo a' =
           restore (a'\<lparr>careTaker :=
                         (careTaker a')\<lparr>redoStack := redoStack (careTaker a') @ [snapshot a'],
                                        undoStack := us\<rparr>\<rparr>) m
           \<bind> (\<lambda>b. Some ([], b))"
  using top by (simp add: undo_def pushToRedo_ok [OF ok'] CareTaker_undo_def)

lemma undo_last_snapshot_fits:
  assumes ok: "buffer_ok a" and ok': "buffer_ok a'"
    and top: "undoStack (careTaker a') = us @ [snapshot a]"
    and fits: "size_d a' \<le> capacity a"
  shows "\<exists>b. undo a' = Some ([], b)
           \<and> size_d b = size_d a \<and> capacity b = capacity a
           \<and> take (size_d a) (data b) = take (size_d a) (data a)
           \<and> terminated b \<and> buffer_ok b
           \<and> undoStack (careTaker b) = us
           \<and> redoStack (careTaker b) = redoStack (careTaker a') @ [snapshot a']
           \<and> clipboard b = clipboard a'"
proof -
  let ?x = "a'\<lparr>careTaker :=
                 (careTaker a')\<lparr>redoStack := redoStack (careTaker a') @ [snapshot a'],
                                undoStack := us\<rparr>\<rparr>"
  from ok' have okx: "buffer_ok ?x" by (simp add: buffer_ok_def)
  from fits have fx: "size_d ?x \<le> capacity a" by simp
  from restore_snapshot [OF ok okx fx] obtain b where
    "restore ?x (snapshot a) = Some b" "size_d b = size_d a" "capacity b = capacity a"
    "take (size_d a) (data b) = take (size_d a) (data a)" "terminated b" "buffer_ok b"
    "careTaker b = careTaker ?x" "clipboard b = clipboard ?x"
    by blast
  then show ?thesis
    unfolding undo_unfold [OF ok' top] by simp
qed

lemma undo_last_snapshot_overflows:
  assumes ok': "buffer_ok a'" and top: "undoStack (careTaker a') = us @ [snapshot a]"
    and over: "capacity a < size_d a'"
  shows "undo a' = None"
proof -
  from ok' over have "capacity a' \<noteq> capacity a"
    using buffer_okD(2) [OF ok'] by simp
  with over show ?thesis
    unfolding undo_unfold [OF ok' top]
    by (simp add: restore_def resize_def memcpy_def new_char_def snapshot_def)
qed

lemma restore_Some_fits:
  assumes "restore x m = Some b" and "buffer_ok x"
  shows "size_d x \<le> savedCapacity m"
proof (cases "capacity x = savedCapacity m")
  case True
  with assms(2) show ?thesis using buffer_okD(5) [of x] by simp
next
  case False
  with assms(1) obtain x1 where "resize x (savedCapacity m) = Some x1"
    by (auto simp: restore_def bind_eq_Some_conv)
  from resize_Some [OF this] show ?thesis by simp
qed

lemma restore_memento:
  assumes mo: "memento_ok m" and okx: "buffer_ok x" and fits: "size_d x \<le> savedCapacity m"
  shows "\<exists>b. restore x m = Some b
           \<and> size_d b = savedSize m \<and> capacity b = savedCapacity m
           \<and> take (savedSize m) (data b) = take (savedSize m) (savedData m)
           \<and> terminated b \<and> buffer_ok b
           \<and> careTaker b = careTaker x \<and> clipboard b = clipboard x"
proof -
  from mo have m: "length (savedData m) = savedCapacity m" "savedSize m < savedCapacity m"
    "savedCapacity m < size_t_range"
    by (simp_all add: memento_ok_def)
  have "\<exists>x1. (if capacity x \<noteq> savedCapacity m then resize x (savedCapacity m) else Some x) = Some x1
          \<and> size_d x1 = size_d x \<and> capacity x1 = savedCapacity m
          \<and> length (data x1) = savedCapacity m
          \<and> careTaker x1 = careTaker x \<and> clipboard x1 = clipboard x"
  proof (cases "capacity x = savedCapacity m")
    case True
    with okx show ?thesis by (simp add: buffer_okD)
  next
    case False
    with fits okx show ?thesis by (simp add: resize_ok buffer_okD)
  qed
  then obtain x1 where
    r: "(if capacity x \<noteq> savedCapacity m then resize x (savedCapacity m) else Some x) = Some x1"
    and x1: "size_d x1 = size_d x" "capacity x1 = savedCapacity m"
      "length (data x1) = savedCapacity m"
      "careTaker x1 = careTaker x" "clipboard x1 = clipboard x"
    by blast
  let ?n = "savedSize m"
  let ?d1 = "take ?n (savedData m) @ drop ?n (data x1)"
  from m x1 have c: "memcpy (data x1) 0 (savedData m) 0 ?n = Some ?d1"
    by (simp add: memcpy_def)
  from m x1 have l: "length ?d1 = savedCapacity m" by simp
  with m have p: "poke ?d1 ?n NUL = Some (?d1[?n := Some NUL])"
    by (simp add: poke_def del: length_append)
  from c p have "restore x m = Some (x1\<lparr>data := ?d1[?n := Some NUL], size_d := ?n\<rparr>)"
    unfolding restore_def r by simp
  moreover from m have "take ?n (?d1[?n := Some NUL]) = take ?n (savedData m)"
    by simp
  moreover from m l have "terminated (x1\<lparr>data := ?d1[?n := Some NUL], size_d := ?n\<rparr>)"
    by (simp add: terminated_def del: length_append)
  moreover from m l x1 have "buffer_ok (x1\<lparr>data := ?d1[?n := Some NUL], size_d := ?n\<rparr>)"
    by (simp add: buffer_ok_def del: length_append)
  ultimately show ?thesis using x1 by simp
qed

lemma restore_inv:
  assumes mo: "memento_ok m" and inv: "array_inv x" and run: "restore x m = Some b"
  shows "array_inv b"
proof -
  from inv have okx: "buffer_ok x" by (simp add: array_inv_def)
  from restore_memento [OF mo okx restore_Some_fits [OF run okx]] run
  have b: "size_d b = savedSize m" "take (savedSize m) (data b) = take (savedSize m) (savedData m)"
    "buffer_ok b" "careTaker b = careTaker x"
    by auto
  from b mo have "initialised b" by (simp add: initialised_def memento_ok_def)
  moreover from b inv have "history_ok b" by (simp add: history_ok_def array_inv_def)
  ultimately show ?thesis using b by (simp add: array_inv_def)
qed

lemma list_all_butlast: "list_all P xs \<Longrightarrow> list_all P (butlast xs)"
  by (auto simp: list_all_iff dest: in_set_butlastD)

lemma list_all_last: "list_all P xs \<Longrightarrow> xs \<noteq> [] \<Longrightarrow> P (last xs)"
  by (auto simp: list_all_iff)

lemma undo_inv:
  assumes inv: "array_inv a" and run: "undo a = Some (out, a')"
  shows "array_inv a'"
proof -
  from inv have ok: "buffer_ok a" and init: "initialised a" and h: "history_ok a"
    by (simp_all add: array_inv_def)
  let ?ct = "(careTaker a)\<lparr>redoStack := redoStack (careTaker a) @ [snapshot a]\<rparr>"
  show ?thesis
  proof (cases "undoStack (careTaker a) = []")
    case True
    with run ok have "a' = a\<lparr>careTaker := ?ct\<rparr>" by (simp add: undo_empty)
    with inv show ?thesis
      by (simp add: array_inv_def buffer_ok_def initialised_def history_ok_def
          snapshot_ok [OF ok init])
  next
    case False
    let ?m = "last (undoStack (careTaker a))"
    let ?x = "a\<lparr>careTaker := ?ct\<lparr>undoStack := butlast (undoStack (careTaker a))\<rparr>\<rparr>"
    from False run ok have r: "restore ?x ?m = Some a'"
      by (auto simp: undo_def pushToRedo_ok CareTaker_undo_def bind_eq_Some_conv)
    from h False have mo: "memento_ok ?m"
      by (simp add: history_ok_def list_all_last)
    from inv have "array_inv ?x"
      by (simp add: array_inv_def buffer_ok_def initialised_def history_ok_def
          snapshot_ok [OF ok init] list_all_butlast)
    from restore_inv [OF mo this r] show ?thesis .
  qed
qed

lemma redo_inv:
  assumes inv: "array_inv a" and run: "redo a = Some (out, a')"
  shows "array_inv a'"
proof -
  from inv have ok: "buffer_ok a" and init: "initialised a" and h: "history_ok a"
    by (simp_all add: array_inv_def)
  let ?ct = "(careTaker a)\<lparr>undoStack := undoStack (careTaker a) @ [snapshot a]\<rparr>"
  show ?thesis
  proof (cases "redoStack (careTaker a) = []")
    case True
    with run ok have "a' = a\<lparr>careTaker := ?ct\<rparr>" by (simp add: redo_empty)
    with inv show ?thesis
      by (simp add: array_inv_def buffer_ok_def initialised_def history_ok_def
          snapshot_ok [OF ok init])
  next
    case False
    let ?m = "last (redoStack (careTaker a))"
    let ?x = "a\<lparr>careTaker := ?ct\<lparr>redoStack := butlast (redoStack (careTaker a))\<rparr>\<rparr>"
    from False run ok have r: "restore ?x ?m = Some a'"
      by (auto simp: redo_def pushToUndo_ok CareTaker_redo_def bind_eq_Some_conv)
    from h False have mo: "memento_ok ?m"
      by (simp add: history_ok_def list_all_last)
    from inv have "array_inv ?x"
      by (simp add: array_inv_def buffer_ok_def initialised_def history_ok_def
          snapshot_ok [OF ok init] list_all_butlast)
    from restore_inv [OF mo this r] show ?thesis .
  qed
qed

lemma deleteText_history:
  assumes ok: "buffer_ok a" and run: "deleteText a pos len = Some (out, a')"
  shows "careTaker a' = careTaker (recorded a)"
  using run unfolding deleteText_unfold [OF ok]
  by (auto simp: bind_eq_Some_conv split: if_splits)

lemma copy_then_delete_history:
  assumes ok: "buffer_ok a" and run: "copy_then_delete a pos len = Some (out, a')"
  shows "careTaker a' = careTaker (recorded a)"
proof -
  from run obtain o1 a1 o2 where c: "copyText a pos len = Some (o1, a1)"
    and d: "deleteText a1 pos len = Some (o2, a')"
    by (auto simp: copy_then_delete_def bind_eq_Some_conv)
  from copyText_Some [OF c] obtain s where a1: "a1 = a\<lparr>clipboard := s\<rparr>" ..
  with ok have "buffer_ok a1" by (simp add: clipboard_update_fields)
  from deleteText_history [OF this d] a1 show ?thesis
    by (simp add: recorded_def snapshot_def)
qed

lemma cutText_history:
  assumes ok: "buffer_ok a" and run: "cutText a pos len = Some (out, a')"
  shows "\<exists>us. undoStack (careTaker a') = us @ [snapshot a]"
proof (cases "pos \<ge> size_d a \<or> sz_add pos len > size_d a")
  case True
  with run ok have "a' = recorded a" by (simp add: cutText_unfold)
  then show ?thesis by (simp add: recorded_fields)
next
  case False
  with run ok have "copy_then_delete (recorded a) pos len = Some (out, a')"
    by (simp add: cutText_unfold)
  from copy_then_delete_history [OF _ this] ok
  show ?thesis by (simp add: recorded_ok recorded_fields snapshot_recorded)
qed

lemma pasteText_history:
  assumes ok: "buffer_ok a" and run: "pasteText a pos = Some (out, a')"
  shows "\<exists>us. undoStack (careTaker a') = us @ [snapshot a]"
proof (cases "pos > size_d a")
  case True
  with run ok have "a' = recorded a" by (simp add: pasteText_unfold)
  then show ?thesis by (simp add: recorded_fields)
next
  case False
  with run ok have i: "insertAndReplace (recorded a) pos (clipboard a) 0 = Some a'"
    by (auto simp: pasteText_unfold bind_eq_Some_conv)
  from False have "pos + 0 \<le> size_d (recorded a)" by (simp add: recorded_fields)
  from insertAndReplace_Some [OF _ this i] ok show ?thesis
    by (simp add: recorded_ok snapshot_recorded)
qed

lemma undo_after_one_edit:
  assumes ok: "buffer_ok a"
    and edit: "append_d a t = Some a'
       \<or> (pos1 + rl \<le> size_d a \<and> insertAndReplace a pos1 s rl = Some a')
       \<or> deleteText a pos2 len2 = Some (o3, a')
       \<or> cutText a pos3 len3 = Some (o4, a')
       \<or> pasteText a pos4 = Some (o5, a')"
  shows "(size_d a' \<le> capacity a \<longrightarrow>
            (\<exists>b. undo a' = Some ([], b) \<and> size_d b = size_d a \<and> capacity b = capacity a
                \<and> take (size_d a) (data b) = take (size_d a) (data a) \<and> terminated b))
         \<and> (capacity a < size_d a' \<longrightarrow> undo a' = None)"
proof -
  from edit ok have "buffer_ok a' \<and> (\<exists>us. undoStack (careTaker a') = us @ [snapshot a])"
    using append_d_Some [OF ok, of t a'] insertAndReplace_Some [OF ok, of pos1 rl s a']
      deleteText_Some [OF ok, of pos2 len2 o3 a'] deleteText_history [OF ok, of pos2 len2 o3 a']
      cutText_Some [OF ok, of pos3 len3 o4 a'] cutText_history [OF ok, of pos3 len3 o4 a']
      pasteText_Some [OF ok, of pos4 o5 a'] pasteText_history [OF ok, of pos4 o5 a']
    by (auto simp: recorded_fields)
  then obtain us where ok': "buffer_ok a'" and top: "undoStack (careTaker a') = us @ [snapshot a]"
    by blast
  show ?thesis
  proof (intro conjI impI)
    assume "size_d a' \<le> capacity a"
    from undo_last_snapshot_fits [OF ok ok' top this]
    show "\<exists>b. undo a' = Some ([], b) \<and> size_d b = size_d a \<and> capacity b = capacity a
                \<and> take (size_d a) (data b) = take (size_d a) (data a) \<and> terminated b"
      by blast
  next
    assume "capacity a < size_d a'"
    from undo_last_snapshot_overflows [OF ok' top this] show "undo a' = None" .
  qed
qed

section \<open>The terminator\<close>

text \<open>
  Which calls keep \<open>data[size]\<close> the terminator. \<open>append\<close>, \<open>deleteText\<close>, \<open>cutText\<close>,
  \<open>undo\<close> and \<open>redo\<close> write it themselves. \<open>insertAndReplace\<close>, and \<open>pasteText\<close>
  through it, moves the cell \<open>data[size]\<close> of the buffer it works on to the new end:
  the old terminator when the buffer was not resized, an uninitialised cell of the new
  allocation when it was.
\<close>

lemma insertAndReplace_terminator:
  assumes ok: "buffer_ok a" and valid: "pos + rl \<le> size_d a"
    and run: "insertAndReplace a pos t rl = Some a'"
  shows "data a' ! size_d a' =
           (if capacity a \<le> size_d a + strlen t - rl then None else data a ! size_d a)
         \<and> (capacity a' = capacity a) = (\<not> capacity a \<le> size_d a + strlen t - rl)"
proof -
  let ?n = "sz_sub (sz_add (size_d a) (strlen t)) rl"
  let ?s = "size_d a" and ?l = "strlen t"
  from run obtain a2 where
    g: "(if capacity a \<le> ?n then resize (recorded a) (sz_mul ?n 2) else Some (recorded a)) = Some a2"
    and run2: "memmove (data a2) (pos + strlen t) (pos + rl)
              (sz_add (sz_sub (sz_sub (size_d a2) pos) rl) 1) \<bind>
     (\<lambda>d1. memcpy d1 pos (map Some (cstr t)) 0 (strlen t) \<bind>
     (\<lambda>d2. Some (a2\<lparr>data := d2, size_d := sz_sub (sz_add (size_d a2) (strlen t)) rl\<rparr>))) = Some a'"
    unfolding insertAndReplace_unfold [OF ok] by (rule bind_SomeE)
  from run2 obtain d1 where
    m: "memmove (data a2) (pos + strlen t) (pos + rl)
              (sz_add (sz_sub (sz_sub (size_d a2) pos) rl) 1) = Some d1"
    and run3: "memcpy d1 pos (map Some (cstr t)) 0 (strlen t) \<bind>
     (\<lambda>d2. Some (a2\<lparr>data := d2, size_d := sz_sub (sz_add (size_d a2) (strlen t)) rl\<rparr>)) = Some a'"
    by (rule bind_SomeE)
  from run3 obtain d2 where
    c: "memcpy d1 pos (map Some (cstr t)) 0 (strlen t) = Some d2"
    and r: "Some (a2\<lparr>data := d2, size_d := sz_sub (sz_add (size_d a2) (strlen t)) rl\<rparr>) = Some a'"
    by (rule bind_SomeE)
  from insertAndReplace_Some [OF ok valid run] have s': "size_d a' = ?s + ?l - rl"
    and ok': "buffer_ok a'" by simp_all
  have sz: "size_d a2 = ?s"
  proof (cases "capacity a \<le> ?n")
    case True
    with g have "resize (recorded a) (sz_mul ?n 2) = Some a2" by simp
    from resize_Some [OF this] show ?thesis by (simp add: recorded_fields)
  next
    case False
    with g have "a2 = recorded a" by simp
    then show ?thesis by (simp add: recorded_fields)
  qed
  from r sz have a': "data a' = d2" "capacity a' = capacity a2" "size_d a' = ?n"
    by auto
  from a' s' have n: "?n = ?s + ?l - rl" by simp
  have a2: "data a2 ! ?s = (if capacity a \<le> ?s + ?l - rl then None else data a ! ?s)
            \<and> (capacity a2 = capacity a) = (\<not> capacity a \<le> ?s + ?l - rl)"
  proof (cases "capacity a \<le> ?n")
    case True
    with g have rs: "resize (recorded a) (sz_mul ?n 2) = Some a2" by simp
    from resize_Some [OF rs] have
      d: "data a2 = take ?s (data a) @ replicate (sz_mul ?n 2 - ?s) None"
      and cap: "capacity a2 = sz_mul ?n 2"
      by (simp_all add: recorded_fields)
    from ok' a' cap have "?n < sz_mul ?n 2" using buffer_okD(2) [OF ok'] by simp
    moreover from ok True have "?s < ?n" using buffer_okD(2) [OF ok] by simp
    ultimately have "?s < sz_mul ?n 2" by simp
    with ok have "data a2 ! ?s = None"
      unfolding d using buffer_okD(6) [OF ok] by (simp add: nth_append)
    moreover from True \<open>?n < sz_mul ?n 2\<close> cap have "capacity a2 \<noteq> capacity a" by simp
    ultimately show ?thesis using True n by simp
  next
    case False
    with g have "a2 = recorded a" by simp
    with False n show ?thesis by (simp add: recorded_fields)
  qed
  from ok have s1: "?s + 1 < size_t_range"
    using buffer_okD(2,3) [of a] by simp
  from sz tail_count [OF valid s1]
  have cnt: "sz_add (sz_sub (sz_sub (size_d a2) pos) rl) 1 = ?s - pos - rl + 1" by simp
  let ?D = "data a2" and ?k = "?s - pos - rl"
  from m have fit: "pos + ?l + (?k + 1) \<le> length ?D" "pos + rl + (?k + 1) \<le> length ?D"
    and d1: "d1 = take (pos + ?l) ?D @ take (?k + 1) (drop (pos + rl) ?D)
                    @ drop (pos + ?l + (?k + 1)) ?D"
    unfolding cnt by (auto simp: memmove_def memcpy_def split: if_splits)
  from c have d2: "d2 = take pos d1 @ map Some (cstr t) @ drop (pos + ?l) d1"
    and l1: "pos + ?l \<le> length d1"
    by (auto simp: memcpy_def strlen_def split: if_splits)
  from fit have lD: "pos + ?l \<le> length ?D" by simp
  from lD have t2: "drop (pos + ?l) d1 = take (?k + 1) (drop (pos + rl) ?D)
                    @ drop (pos + ?l + (?k + 1)) ?D"
    unfolding d1 by simp
  from fit have l3: "length (take (?k + 1) (drop (pos + rl) ?D)) = ?k + 1" by simp
  from l1 have lp: "length (take pos d1 @ map Some (cstr t)) = pos + ?l"
    by (simp add: strlen_def)
  from valid have nk: "?s + ?l - rl = pos + ?l + ?k" by simp
  have "d2 ! (pos + ?l + ?k) = drop (pos + ?l) d1 ! ?k"
    unfolding d2 using lp by (metis append.assoc nth_append_length_plus)
  also have "\<dots> = take (?k + 1) (drop (pos + rl) ?D) ! ?k"
    unfolding t2 using l3 by (simp add: nth_append)
  also from fit valid have "\<dots> = ?D ! ?s" by simp
  finally have "d2 ! (?s + ?l - rl) = ?D ! ?s" unfolding nk .
  with a' s' a2 show ?thesis by simp
qed

lemma deleteText_terminated:
  assumes ok: "buffer_ok a" and tm: "terminated a"
    and run: "deleteText a pos len = Some (out, a')"
  shows "terminated a'"
proof (cases "pos \<ge> size_d a \<or> sz_add pos len > size_d a")
  case True
  with run ok have "a' = recorded a" by (simp add: deleteText_unfold)
  with tm show ?thesis by (simp add: terminated_def recorded_fields)
next
  case False
  with run ok obtain d2 where d: "delete_cells (data a) (size_d a) pos len = Some d2"
    and r: "a' = (recorded a)\<lparr>data := d2, size_d := sz_sub (size_d a) len\<rparr>"
    by (auto simp: deleteText_unfold bind_eq_Some_conv)
  from False have c: "pos < size_d a" "sz_add pos len \<le> size_d a" by simp_all
  from ok have b: "size_d a < length (data a)" "length (data a) < size_t_range"
    by (simp_all add: buffer_okD)
  from delete_cells_content [OF c b d] r b show ?thesis
    by (simp add: terminated_def)
qed

lemma undo_terminated:
  assumes inv: "array_inv a" and tm: "terminated a" and run: "undo a = Some (out, a')"
  shows "terminated a'"
proof -
  from inv have ok: "buffer_ok a" and h: "history_ok a"
    by (simp_all add: array_inv_def)
  let ?ct = "(careTaker a)\<lparr>redoStack := redoStack (careTaker a) @ [snapshot a]\<rparr>"
  show ?thesis
  proof (cases "undoStack (careTaker a) = []")
    case True
    with run ok have "a' = a\<lparr>careTaker := ?ct\<rparr>" by (simp add: undo_empty)
    with tm show ?thesis by (simp add: terminated_def)
  next
    case False
    let ?m = "last (undoStack (careTaker a))"
    let ?x = "a\<lparr>careTaker := ?ct\<lparr>undoStack := butlast (undoStack (careTaker a))\<rparr>\<rparr>"
    from False run ok have r: "restore ?x ?m = Some a'"
      by (auto simp: undo_def pushToRedo_ok CareTaker_undo_def bind_eq_Some_conv)
    from h False have mo: "memento_ok ?m"
      by (simp add: history_ok_def list_all_last)
    from ok have okx: "buffer_ok ?x" by (simp add: buffer_ok_def)
    from restore_memento [OF mo okx restore_Some_fits [OF r okx]] r show ?thesis by auto
  qed
qed

lemma redo_terminated:
  assumes inv: "array_inv a" and tm: "terminated a" and run: "redo a = Some (out, a')"
  shows "terminated a'"
proof -
  from inv have ok: "buffer_ok a" and h: "history_ok a"
    by (simp_all add: array_inv_def)
  let ?ct = "(careTaker a)\<lparr>undoStack := undoStack (careTaker a) @ [snapshot a]\<rparr>"
  show ?thesis
  proof (cases "redoStack (careTaker a) = []")
    case True
    with run ok have "a' = a\<lparr>careTaker := ?ct\<rparr>" by (simp add: redo_empty)
    with tm show ?thesis by (simp add: terminated_def)
  next
    case False
    let ?m = "last (redoStack (careTaker a))"
    let ?x = "a\<lparr>careTaker := ?ct\<lparr>redoStack := butlast (redoStack (careTaker a))\<rparr>\<rparr>"
    from False run ok have r: "restore ?x ?m = Some a'"
      by (auto simp: redo_def pushToUndo_ok CareTaker_redo_def bind_eq_Some_conv)
    from h False have mo: "memento_ok ?m"
      by (simp add: history_ok_def list_all_last)
    from ok have okx: "buffer_ok ?x" by (simp add: buffer_ok_def)
    from restore_memento [OF mo okx restore_Some_fits [OF r okx]] r show ?thesis by auto
  qed
qed

lemma insertAndReplace_terminated:
  assumes ok: "buffer_ok a" and tm: "terminated a" and valid: "pos + rl \<le> size_d a"
    and run: "insertAndReplace a pos t rl = Some a'" and same: "capacity a' = capacity a"
  shows "terminated a'"
proof -
  from insertAndReplace_Some [OF ok valid run] have "buffer_ok a'" by simp
  then have "size_d a' < length (data a')" by (simp add: buffer_okD)
  with insertAndReplace_terminator [OF ok valid run] same tm show ?thesis
    by (simp add: terminated_def)
qed

lemma cutText_terminated:
  assumes ok: "buffer_ok a" and tm: "terminated a"
    and run: "cutText a pos len = Some (out, a')"
  shows "terminated a'"
proof (cases "pos \<ge> size_d a \<or> sz_add pos len > size_d a")
  case True
  with run ok have "a' = recorded a" by (simp add: cutText_unfold)
  with tm show ?thesis by (simp add: terminated_def recorded_fields)
next
  case False
  with run ok have "copy_then_delete (recorded a) pos len = Some (out, a')"
    by (simp add: cutText_unfold)
  then obtain o1 a1 o2 where c: "copyText (recorded a) pos len = Some (o1, a1)"
    and d: "deleteText a1 pos len = Some (o2, a')"
    by (auto simp: copy_then_delete_def bind_eq_Some_conv)
  from copyText_Some [OF c] obtain s where a1: "a1 = (recorded a)\<lparr>clipboard := s\<rparr>" ..
  with ok tm have "buffer_ok a1" "terminated a1"
    by (simp_all add: clipboard_update_fields recorded_ok terminated_def recorded_fields)
  from deleteText_terminated [OF this d] show ?thesis .
qed

lemma pasteText_terminated:
  assumes ok: "buffer_ok a" and tm: "terminated a"
    and run: "pasteText a pos = Some (out, a')" and same: "capacity a' = capacity a"
  shows "terminated a'"
proof (cases "pos > size_d a")
  case True
  with run ok have "a' = recorded a" by (simp add: pasteText_unfold)
  with tm show ?thesis by (simp add: terminated_def recorded_fields)
next
  case False
  with run ok have i: "insertAndReplace (recorded a) pos (clipboard a) 0 = Some a'"
    by (auto simp: pasteText_unfold bind_eq_Some_conv)
  from False have v: "pos + 0 \<le> size_d (recorded a)" by (simp add: recorded_fields)
  from ok tm same have "buffer_ok (recorded a)" "terminated (recorded a)"
    "capacity a' = capacity (recorded a)"
    by (simp_all add: recorded_ok terminated_def recorded_fields)
  from insertAndReplace_terminated [OF this(1,2) v i this(3)] show ?thesis .
qed

lemma insert_growth_loses_terminator:
  assumes ok: "buffer_ok a" and valid: "pos + rl \<le> size_d a"
    and run: "insertAndReplace a pos t rl = Some a'"
    and grows: "capacity a \<le> size_d a + strlen t - rl"
  shows "data a' ! size_d a' = None" and "\<not> terminated a'"
  using insertAndReplace_terminator [OF ok valid run] grows by (simp_all add: terminated_def)

section \<open>The invariant along the menu loop\<close>

text \<open>
  Every array that the menu loop reaches from the new array by valid calls satisfies the
  invariant, and so the assumptions \<open>buffer_ok\<close> and \<open>initialised\<close> of the theorems
  below. A call that leaves the capacity as it was keeps the terminator too.
\<close>

lemma execute_inv:
  assumes inv: "array_inv a" and valid: "valid_call a c" and run: "execute a c = Some (out, a')"
  shows "array_inv a'"
proof (cases c)
  case (Append t)
  with run have "append_d a t = Some a'" by (auto simp: silent_def)
  from append_d_inv [OF inv this] show ?thesis .
next
  case NewLine
  with run have "append_d a ''\<newline>'' = Some a'" by (auto simp: silent_def)
  from append_d_inv [OF inv this] show ?thesis .
next
  case (Insert pos t rl)
  with run valid have "insertAndReplace a pos t rl = Some a'" "pos + rl \<le> size_d a"
    by (auto simp: silent_def)
  from insertAndReplace_inv [OF inv this(2,1)] show ?thesis .
next
  case Undo
  with run undo_inv [OF inv] show ?thesis by simp
next
  case Redo
  with run redo_inv [OF inv] show ?thesis by simp
next
  case (Delete pos len)
  with run deleteText_inv [OF inv] show ?thesis by simp
next
  case (Cut pos len)
  with run cutText_inv [OF inv] show ?thesis by simp
next
  case (Copy pos len)
  with run copyText_inv [OF inv] show ?thesis by simp
next
  case (Paste pos)
  with run pasteText_inv [OF inv] show ?thesis by simp
qed

lemma new_array_inv: "array_inv DynamicArray_new"
  using fixtures_ok(1)
  by (simp add: array_inv_def history_ok_def initialised_def DynamicArray_new_def)

lemma run_inv:
  "array_inv a \<Longrightarrow> valid_calls a cs \<Longrightarrow> run a cs = Some (out, a') \<Longrightarrow> array_inv a'"
proof (induction cs arbitrary: a out)
  case Nil
  then show ?case by simp
next
  case (Cons c cs)
  from Cons.prems(3) obtain o1 a1 o2 where e: "execute a c = Some (o1, a1)"
    and r: "run a1 cs = Some (o2, a')"
    by (auto simp: bind_eq_Some_conv)
  from Cons.prems(2) e have v: "valid_call a c" "valid_calls a1 cs" by simp_all
  from execute_inv [OF Cons.prems(1) v(1) e] have "array_inv a1" .
  from Cons.IH [OF this v(2) r] show ?case .
qed

lemma execute_terminated:
  assumes inv: "array_inv a" and tm: "terminated a" and valid: "valid_call a c"
    and run: "execute a c = Some (out, a')"
    and same: "capacity a' = capacity a"
  shows "terminated a'"
proof -
  from inv have ok: "buffer_ok a" by (simp add: array_inv_def)
  show ?thesis
  proof (cases c)
    case (Append t)
    with run have "append_d a t = Some a'" by (auto simp: silent_def)
    from append_d_content [OF ok this] show ?thesis by simp
  next
    case NewLine
    with run have "append_d a ''\<newline>'' = Some a'" by (auto simp: silent_def)
    from append_d_content [OF ok this] show ?thesis by simp
  next
    case (Insert pos t rl)
    with run valid have "insertAndReplace a pos t rl = Some a'" "pos + rl \<le> size_d a"
      by (auto simp: silent_def)
    from insertAndReplace_terminated [OF ok tm this(2,1) same] show ?thesis .
  next
    case Undo
    with run undo_terminated [OF inv tm] show ?thesis by simp
  next
    case Redo
    with run redo_terminated [OF inv tm] show ?thesis by simp
  next
    case (Delete pos len)
    with run deleteText_terminated [OF ok tm] show ?thesis by simp
  next
    case (Cut pos len)
    with run cutText_terminated [OF ok tm] show ?thesis by simp
  next
    case (Copy pos len)
    with run copyText_Some [of a pos len out a'] tm show ?thesis
      by (auto simp: terminated_def)
  next
    case (Paste pos)
    with run pasteText_terminated [OF ok tm _ same] show ?thesis by simp
  qed
qed

lemma reached_inv:
  assumes "valid_calls DynamicArray_new cs" and "run DynamicArray_new cs = Some (out, a)"
  shows "buffer_ok a" and "initialised a" and "history_ok a"
  using run_inv [OF new_array_inv assms] by (simp_all add: array_inv_def)

section \<open>Detected errors\<close>

text \<open>
  C1 (as the code has it). When \<open>deleteText\<close>, \<open>cutText\<close> or \<open>copyText\<close> finds its range
  invalid, or \<open>pasteText\<close> finds \<open>pos > size\<close>, it prints its message and leaves the
  buffer cells, the size, the capacity and the clipboard as they were. \<open>copyText\<close> leaves
  the two history stacks alone as well. The other three have called \<open>saveState\<close> before
  the test: the undo stack has one more memento, of the unchanged array, and the redo
  stack is empty.
\<close>

theorem detected_error_keeps_buffer_and_clipboard:
  assumes "buffer_ok a"
  shows "(pos \<ge> size_d a \<or> sz_add pos len > size_d a \<longrightarrow>
            copyText a pos len = Some ([msg_invalid_range], a) \<and>
            deleteText a pos len = Some ([msg_invalid_range], recorded a) \<and>
            cutText a pos len = Some ([msg_invalid_range], recorded a))
         \<and> (pos > size_d a \<longrightarrow> pasteText a pos = Some ([msg_invalid_position], recorded a))
         \<and> data (recorded a) = data a \<and> size_d (recorded a) = size_d a
         \<and> capacity (recorded a) = capacity a \<and> clipboard (recorded a) = clipboard a
         \<and> undoStack (careTaker (recorded a)) = undoStack (careTaker a) @ [snapshot a]
         \<and> redoStack (careTaker (recorded a)) = []"
  using assms
  by (simp add: copyText_def deleteText_unfold cutText_unfold pasteText_unfold recorded_fields)

text \<open>The theorem at \<open>"hello"\<close>, position 7, length 1.\<close>

theorem detected_error_witness:
  "buffer_ok hello_buffer \<and> 7 \<ge> size_d hello_buffer \<and> 7 > size_d hello_buffer
   \<and> copyText hello_buffer 7 1 = Some ([msg_invalid_range], hello_buffer)
   \<and> deleteText hello_buffer 7 1 = Some ([msg_invalid_range], recorded hello_buffer)
   \<and> cutText hello_buffer 7 1 = Some ([msg_invalid_range], recorded hello_buffer)
   \<and> pasteText hello_buffer 7 = Some ([msg_invalid_position], recorded hello_buffer)
   \<and> undoStack (careTaker (recorded hello_buffer))
       = undoStack (careTaker hello_buffer) @ [snapshot hello_buffer]"
proof -
  have s: "size_d hello_buffer = 5" by (simp add: hello_buffer_def)
  from detected_error_keeps_buffer_and_clipboard [OF fixtures_ok(2), of 7 1] s
  show ?thesis by (simp add: fixtures_ok)
qed

text \<open>
  A refused \<open>deleteText(0, 0)\<close> on the array that a failed \<open>undo()\<close> has left: the
  message is printed, the undo stack goes from empty to one memento and the redo stack
  from one memento to empty.
\<close>

theorem refused_delete_changes_history:
  "map_option (redo_depth \<circ> snd) (run DynamicArray_new [Undo]) = Some 1
   \<and> map_option (undo_depth \<circ> snd) (run DynamicArray_new [Undo]) = Some 0
   \<and> map_option fst (run DynamicArray_new [Undo, Delete 0 0])
       = Some [msg_cannot_undo, msg_invalid_range]
   \<and> map_option (redo_depth \<circ> snd) (run DynamicArray_new [Undo, Delete 0 0]) = Some 0
   \<and> map_option (undo_depth \<circ> snd) (run DynamicArray_new [Undo, Delete 0 0]) = Some 1"
  by (simp add: exec_simps fixture_defs undo_depth_def redo_depth_def)

section \<open>Undo after an edit that grew the buffer\<close>

text \<open>
  C2 (the code fails it). The scenario of the specification: \<open>append("hello")\<close>,
  \<open>append(" world")\<close>, \<open>undo()\<close>. The second \<open>append\<close> doubles the capacity from 10 to
  20 and leaves the size at 11. \<open>undo()\<close> finds a memento of capacity 10 and calls
  \<open>resize(10)\<close>, whose \<open>memcpy\<close> copies the 11 current cells into the new allocation of
  10: a write past its end. Nothing is restored. With a longer second text the write goes
  further past the end: 42 cells into an allocation of 10.
\<close>

theorem undo_after_growing_append_overflows:
  "map_option fst (run DynamicArray_new [Append ''hello'', Append '' world'']) = Some []
   \<and> map_option (content \<circ> snd) (run DynamicArray_new [Append ''hello'', Append '' world''])
       = Some (map Some ''hello world'')
   \<and> map_option (size_d \<circ> snd) (run DynamicArray_new [Append ''hello'', Append '' world''])
       = Some 11
   \<and> map_option (capacity \<circ> snd) (run DynamicArray_new [Append ''hello'', Append '' world''])
       = Some 20
   \<and> map_option (savedCapacity \<circ> last \<circ> undoStack \<circ> careTaker \<circ> snd)
        (run DynamicArray_new [Append ''hello'', Append '' world'']) = Some 10
   \<and> run DynamicArray_new [Append ''hello'', Append '' world'', Undo] = None
   \<and> map_option (size_d \<circ> snd)
        (run DynamicArray_new [Append ''hello'', Append '', this line is longer than the buffer''])
       = Some 42
   \<and> map_option (capacity \<circ> snd)
        (run DynamicArray_new [Append ''hello'', Append '', this line is longer than the buffer''])
       = Some 80
   \<and> run DynamicArray_new
        [Append ''hello'', Append '', this line is longer than the buffer'', Undo] = None"
  by (simp add: exec_simps fixture_defs content_def)

section \<open>Cut records twice\<close>

text \<open>
  C3 (as the code has it). For a valid range, \<open>pos < size\<close> and \<open>pos + len \<le> size\<close>, one
  call of \<open>cutText(pos, len)\<close> returns without a message and pushes exactly two mementos
  onto the undo stack, both of the array as it was before the cut: one by \<open>cutText\<close>
  itself and one by the \<open>deleteText\<close> that it calls. \<open>copyText\<close> pushes none.
\<close>

theorem cut_pushes_two_snapshots:
  assumes "buffer_ok a" and "initialised a" and "pos < size_d a" and "pos + len \<le> size_d a"
  shows "\<exists>a'. cutText a pos len = Some ([], a')
           \<and> undoStack (careTaker a') = undoStack (careTaker a) @ [snapshot a, snapshot a]
           \<and> undo_depth a' = undo_depth a + 2"
proof -
  from cutText_valid [OF assms] obtain d2 where
    "cutText a pos len =
       Some ([], (recorded ((recorded a)\<lparr>clipboard := map the (take len (drop pos (data a)))\<rparr>))
                   \<lparr>data := d2, size_d := size_d a - len\<rparr>)"
    by blast
  then show ?thesis
    by (simp add: recorded_fields clipboard_update_fields snapshot_recorded undo_depth_def)
qed

text \<open>The theorem at \<open>"hello"\<close>, cutting \<open>"ell"\<close>.\<close>

theorem cut_pushes_two_witness:
  "buffer_ok hello_buffer \<and> initialised hello_buffer
   \<and> 1 < size_d hello_buffer \<and> 1 + 3 \<le> size_d hello_buffer
   \<and> (\<exists>a'. cutText hello_buffer 1 3 = Some ([], a')
         \<and> undoStack (careTaker a')
             = undoStack (careTaker hello_buffer) @ [snapshot hello_buffer, snapshot hello_buffer]
         \<and> undo_depth a' = undo_depth hello_buffer + 2)"
proof -
  have h: "1 < size_d hello_buffer" "1 + 3 \<le> size_d hello_buffer"
    by (simp_all add: hello_buffer_def)
  from cut_pushes_two_snapshots [OF fixtures_ok(2) fixtures_ok(5) h] h
  show ?thesis by (auto simp: fixtures_ok)
qed

text \<open>
  \<open>cutText(1, 3)\<close> on \<open>"hello"\<close>, whose undo stack holds the one memento of
  \<open>append("hello")\<close>: afterwards it holds three, not two.
\<close>

theorem cut_on_hello_pushes_two:
  "undo_depth hello_buffer = 1
   \<and> map_option fst (cutText hello_buffer 1 3) = Some []
   \<and> map_option (undo_depth \<circ> snd) (cutText hello_buffer 1 3) = Some 3"
  by (simp add: exec_simps fixture_defs undo_depth_def)

section \<open>A new edit discards the redo stack\<close>

lemma redo_refused_after_record:
  "buffer_ok b \<Longrightarrow> redoStack (careTaker b) = [] \<Longrightarrow> redo_refused b"
  by (simp add: redo_refused_def redo_empty)

text \<open>
  C4. Whatever the array holds to redo, once \<open>append\<close>, \<open>insertAndReplace\<close> (called with
  \<open>pos + replaceLen \<le> size\<close>), \<open>deleteText\<close>, \<open>cutText\<close> or \<open>pasteText\<close> has returned,
  the redo stack is empty, and a \<open>redo()\<close> that follows prints its message and changes
  neither the buffer cells nor the size, the capacity or the clipboard.
\<close>

theorem new_edit_discards_redo:
  assumes "buffer_ok a"
  shows "(append_d a t = Some b1 \<longrightarrow> redo_refused b1)
         \<and> (pos1 + rl \<le> size_d a \<and> insertAndReplace a pos1 s rl = Some b2 \<longrightarrow> redo_refused b2)
         \<and> (deleteText a pos2 len2 = Some (o3, b3) \<longrightarrow> redo_refused b3)
         \<and> (cutText a pos3 len3 = Some (o4, b4) \<longrightarrow> redo_refused b4)
         \<and> (pasteText a pos4 = Some (o5, b5) \<longrightarrow> redo_refused b5)"
proof (intro conjI impI)
  assume "append_d a t = Some b1"
  from append_d_Some [OF assms this] show "redo_refused b1"
    by (simp add: redo_refused_after_record)
next
  assume "pos1 + rl \<le> size_d a \<and> insertAndReplace a pos1 s rl = Some b2"
  then have "pos1 + rl \<le> size_d a" "insertAndReplace a pos1 s rl = Some b2" by simp_all
  from insertAndReplace_Some [OF assms this] show "redo_refused b2"
    by (simp add: redo_refused_after_record)
next
  assume "deleteText a pos2 len2 = Some (o3, b3)"
  from deleteText_Some [OF assms this] show "redo_refused b3"
    by (simp add: redo_refused_after_record)
next
  assume "cutText a pos3 len3 = Some (o4, b4)"
  from cutText_Some [OF assms this] show "redo_refused b4"
    by (simp add: redo_refused_after_record)
next
  assume "pasteText a pos4 = Some (o5, b5)"
  from pasteText_Some [OF assms this] show "redo_refused b5"
    by (simp add: redo_refused_after_record)
qed

text \<open>
  The theorem at the array after \<open>undo()\<close>, which holds one state to redo, for one call
  of each method.
\<close>

theorem new_edit_discards_redo_witness:
  "buffer_ok undone_buffer \<and> redo_depth undone_buffer = 1
   \<and> map_option redo_refused (append_d undone_buffer ''!!'') = Some True
   \<and> 0 + 1 \<le> size_d undone_buffer
   \<and> map_option redo_refused (insertAndReplace undone_buffer 0 ''J'' 1) = Some True
   \<and> map_option (redo_refused \<circ> snd) (deleteText undone_buffer 1 3) = Some True
   \<and> map_option (redo_refused \<circ> snd) (cutText undone_buffer 1 3) = Some True
   \<and> map_option (redo_refused \<circ> snd) (pasteText undone_buffer 2) = Some True"
proof -
  note t = new_edit_discards_redo [OF fixtures_ok(4)]
  have d: "redo_depth undone_buffer = 1" and v: "0 + 1 \<le> size_d undone_buffer"
    by (simp_all add: redo_depth_def undone_buffer_def)
  obtain b1 where e1: "append_d undone_buffer ''!!'' = Some b1"
    by (simp add: exec_simps fixture_defs)
  obtain b2 where e2: "insertAndReplace undone_buffer 0 ''J'' 1 = Some b2"
    by (simp add: exec_simps fixture_defs)
  obtain o3 b3 where e3: "deleteText undone_buffer 1 3 = Some (o3, b3)"
    by (simp add: exec_simps fixture_defs)
  obtain o4 b4 where e4: "cutText undone_buffer 1 3 = Some (o4, b4)"
    by (simp add: exec_simps fixture_defs)
  obtain o5 b5 where e5: "pasteText undone_buffer 2 = Some (o5, b5)"
    by (simp add: exec_simps fixture_defs)
  from t e1 have r1: "redo_refused b1" by blast
  from t v e2 have r2: "redo_refused b2" by blast
  from t e3 have r3: "redo_refused b3" by blast
  from t e4 have r4: "redo_refused b4" by blast
  from t e5 have r5: "redo_refused b5" by blast
  from d v r1 r2 r3 r4 r5 show ?thesis
    unfolding e1 e2 e3 e4 e5 by (simp add: fixtures_ok)
qed

section \<open>The terminator after an insertion that grew the buffer\<close>

text \<open>
  C5 (the code fails it). \<open>append("hello")\<close> and then \<open>insertAndReplace(5, "world!", 0)\<close>,
  a valid call. The new size 11 reaches the capacity 10, so \<open>resize(22)\<close> runs; it copies
  the 5 characters and not the terminator. The \<open>memmove\<close> that should carry the
  terminator to \<open>data[11]\<close> copies the uninitialised cell \<open>data[5]\<close> of the new
  allocation. The size stays below the capacity, but \<open>data[size]\<close> is not the terminator.
\<close>

theorem insert_with_growth_loses_terminator:
  "map_option (terminated \<circ> snd) (run DynamicArray_new [Append ''hello'']) = Some True
   \<and> map_option (size_d \<circ> snd) (run DynamicArray_new [Append ''hello'', Insert 5 ''world!'' 0])
       = Some 11
   \<and> map_option (capacity \<circ> snd) (run DynamicArray_new [Append ''hello'', Insert 5 ''world!'' 0])
       = Some 22
   \<and> map_option (buffer_ok \<circ> snd) (run DynamicArray_new [Append ''hello'', Insert 5 ''world!'' 0])
       = Some True
   \<and> map_option (terminated \<circ> snd) (run DynamicArray_new [Append ''hello'', Insert 5 ''world!'' 0])
       = Some False"
  by (simp add: exec_simps fixture_defs terminated_def buffer_ok_def)

section \<open>Cut against copy followed by delete\<close>

text \<open>
  C6 (as the code has it). For a valid range, \<open>cutText(pos, len)\<close> is \<open>saveState\<close>
  followed by \<open>copyText(pos, len)\<close> and \<open>deleteText(pos, len)\<close>. All three of
  \<open>cutText\<close>, copy followed by delete, and \<open>deleteText\<close> alone return without a message;
  \<open>cutText\<close> ends with the same buffer cells, size, capacity, clipboard and redo stack as
  copy followed by delete, and with the same cells, size and capacity as \<open>deleteText\<close>
  alone. Its undo stack is that of copy followed by delete with one more memento of the
  array before the call.
\<close>

theorem cut_is_copy_then_delete_plus_snapshot:
  assumes "buffer_ok a" and "initialised a" and "pos < size_d a" and "pos + len \<le> size_d a"
  shows "cutText a pos len = copy_then_delete (recorded a) pos len
         \<and> (\<exists>c d e. cutText a pos len = Some ([], c)
               \<and> copy_then_delete a pos len = Some ([], d)
               \<and> deleteText a pos len = Some ([], e)
               \<and> data c = data d \<and> size_d c = size_d d \<and> capacity c = capacity d
               \<and> clipboard c = clipboard d \<and> redoStack (careTaker c) = redoStack (careTaker d)
               \<and> undoStack (careTaker d) = undoStack (careTaker a) @ [snapshot a]
               \<and> undoStack (careTaker c) = undoStack (careTaker d) @ [snapshot a]
               \<and> data c = data e \<and> size_d c = size_d e \<and> capacity c = capacity e)"
proof -
  let ?s = "map the (take len (drop pos (data a)))"
  from cutText_valid [OF assms] obtain d2 where
    d2: "delete_cells (data a) (size_d a) pos len = Some d2" and
    c: "cutText a pos len =
       Some ([], (recorded ((recorded a)\<lparr>clipboard := ?s\<rparr>))\<lparr>data := d2, size_d := size_d a - len\<rparr>)"
    by blast
  from copy_then_delete_valid [OF assms] d2 have
    d: "copy_then_delete a pos len =
       Some ([], (recorded (a\<lparr>clipboard := ?s\<rparr>))\<lparr>data := d2, size_d := size_d a - len\<rparr>)"
    by auto
  from deleteText_valid [OF assms(1,3,4)] d2 have
    e: "deleteText a pos len = Some ([], (recorded a)\<lparr>data := d2, size_d := size_d a - len\<rparr>)"
    by auto
  from assms have v: "\<not> (pos \<ge> size_d a \<or> sz_add pos len > size_d a)"
    by (intro range_valid) (simp_all add: buffer_okD)
  with assms(1) have u: "cutText a pos len = copy_then_delete (recorded a) pos len"
    by (simp add: cutText_unfold)
  have "\<exists>c d e. cutText a pos len = Some ([], c)
               \<and> copy_then_delete a pos len = Some ([], d)
               \<and> deleteText a pos len = Some ([], e)
               \<and> data c = data d \<and> size_d c = size_d d \<and> capacity c = capacity d
               \<and> clipboard c = clipboard d \<and> redoStack (careTaker c) = redoStack (careTaker d)
               \<and> undoStack (careTaker d) = undoStack (careTaker a) @ [snapshot a]
               \<and> undoStack (careTaker c) = undoStack (careTaker d) @ [snapshot a]
               \<and> data c = data e \<and> size_d c = size_d e \<and> capacity c = capacity e"
    unfolding c d e
    by (simp add: recorded_fields clipboard_update_fields snapshot_recorded)
  with u show ?thesis ..
qed

text \<open>The theorem at \<open>"hello"\<close>, range \<open>(1, 3)\<close>.\<close>

theorem cut_is_copy_then_delete_witness:
  "buffer_ok hello_buffer \<and> initialised hello_buffer
   \<and> 1 < size_d hello_buffer \<and> 1 + 3 \<le> size_d hello_buffer
   \<and> cutText hello_buffer 1 3 = copy_then_delete (recorded hello_buffer) 1 3
   \<and> (\<exists>c d e. cutText hello_buffer 1 3 = Some ([], c)
         \<and> copy_then_delete hello_buffer 1 3 = Some ([], d)
         \<and> deleteText hello_buffer 1 3 = Some ([], e)
         \<and> data c = data d \<and> size_d c = size_d d \<and> capacity c = capacity d
         \<and> clipboard c = clipboard d \<and> redoStack (careTaker c) = redoStack (careTaker d)
         \<and> undoStack (careTaker d) = undoStack (careTaker hello_buffer) @ [snapshot hello_buffer]
         \<and> undoStack (careTaker c) = undoStack (careTaker d) @ [snapshot hello_buffer]
         \<and> data c = data e \<and> size_d c = size_d e \<and> capacity c = capacity e)"
proof -
  have h: "1 < size_d hello_buffer" "1 + 3 \<le> size_d hello_buffer"
    by (simp_all add: hello_buffer_def)
  note t = cut_is_copy_then_delete_plus_snapshot [OF fixtures_ok(2) fixtures_ok(5) h]
  from fixtures_ok(2) fixtures_ok(5) h t show ?thesis by blast
qed

text \<open>
  On \<open>"hello"\<close>, \<open>cutText(1, 3)\<close> and copy followed by delete do not end in the same
  state: the one leaves three mementos to undo, the other two. A caller sees it after two
  calls of \<open>undo()\<close>: behind the cut the content is \<open>"hello"\<close>, behind copy and delete
  it is empty.
\<close>

theorem cut_differs_from_copy_then_delete:
  "cutText hello_buffer 1 3 \<noteq> copy_then_delete hello_buffer 1 3
   \<and> map_option (undo_depth \<circ> snd) (cutText hello_buffer 1 3) = Some 3
   \<and> map_option (undo_depth \<circ> snd) (copy_then_delete hello_buffer 1 3) = Some 2
   \<and> map_option (content \<circ> snd) (run DynamicArray_new [Append ''hello'', Cut 1 3, Undo, Undo])
       = Some (map Some ''hello'')
   \<and> map_option (content \<circ> snd)
        (run DynamicArray_new [Append ''hello'', Copy 1 3, Delete 1 3, Undo, Undo])
       = Some []"
  by (simp add: exec_simps fixture_defs undo_depth_def content_def)

section \<open>Paste records twice\<close>

text \<open>
  C7. For a position \<open>pos \<le> size\<close> (and a clipboard short enough for the doubled size
  to fit \<open>size_t\<close>), \<open>pasteText(pos)\<close> returns without a message; it is \<open>saveState\<close>
  followed by \<open>insertAndReplace(pos, clipboard, 0)\<close>, which calls \<open>saveState\<close> again, and
  the undo stack ends exactly two mementos longer.
\<close>

theorem paste_pushes_two_snapshots:
  assumes "buffer_ok a" and "pos \<le> size_d a"
    and "(size_d a + strlen (clipboard a)) * 2 < size_t_range"
  shows "\<exists>a'. pasteText a pos = Some ([], a')
           \<and> insertAndReplace (recorded a) pos (clipboard a) 0 = Some a'
           \<and> undoStack (careTaker a') = undoStack (careTaker a) @ [snapshot a, snapshot a]
           \<and> undo_depth a' = undo_depth a + 2"
proof -
  from assms have ok: "buffer_ok (recorded a)" and v: "pos + 0 \<le> size_d (recorded a)"
    and room: "(size_d (recorded a) + strlen (clipboard a) - 0) * 2 < size_t_range"
    by (simp_all add: recorded_ok recorded_fields)
  from insertAndReplace_total [OF ok v room] obtain a' where
    i: "insertAndReplace (recorded a) pos (clipboard a) 0 = Some a'" ..
  from insertAndReplace_Some [OF ok v i]
  have "undoStack (careTaker a') = undoStack (careTaker a) @ [snapshot a, snapshot a]"
    by (simp add: recorded_fields snapshot_recorded)
  with i assms show ?thesis
    by (simp add: pasteText_unfold undo_depth_def)
qed

text \<open>The theorem at \<open>"hello"\<close> with \<open>"ell"\<close> on the clipboard, pasted at the end.\<close>

theorem paste_pushes_two_witness:
  "buffer_ok hello_copied \<and> 5 \<le> size_d hello_copied
   \<and> (size_d hello_copied + strlen (clipboard hello_copied)) * 2 < size_t_range
   \<and> (\<exists>a'. pasteText hello_copied 5 = Some ([], a')
         \<and> undoStack (careTaker a')
             = undoStack (careTaker hello_copied) @ [snapshot hello_copied, snapshot hello_copied]
         \<and> undo_depth a' = undo_depth hello_copied + 2)"
proof -
  have h: "5 \<le> size_d hello_copied"
    "(size_d hello_copied + strlen (clipboard hello_copied)) * 2 < size_t_range"
    by (simp_all add: hello_copied_def hello_buffer_def exec_simps)
  from paste_pushes_two_snapshots [OF fixtures_ok(3) h] h
  show ?thesis by (auto simp: fixtures_ok)
qed

section \<open>Undo and redo on an empty stack\<close>

text \<open>
  C8. \<open>undo()\<close> pushes the current state onto the redo stack before it looks at the undo
  stack, and \<open>redo()\<close> pushes it onto the undo stack before it looks at the redo stack.
  When the stack to pop is empty the call prints its message and the buffer, the size, the
  capacity and the clipboard stay as they were, but the opposite stack keeps the memento
  just pushed.
\<close>

theorem failed_undo_redo_leave_spurious_entry:
  assumes "buffer_ok a"
  shows "(undoStack (careTaker a) = [] \<longrightarrow>
            undo a = Some ([msg_cannot_undo],
              a\<lparr>careTaker := (careTaker a)\<lparr>redoStack := redoStack (careTaker a) @ [snapshot a]\<rparr>\<rparr>))
         \<and> (redoStack (careTaker a) = [] \<longrightarrow>
            redo a = Some ([msg_cannot_redo],
              a\<lparr>careTaker := (careTaker a)\<lparr>undoStack := undoStack (careTaker a) @ [snapshot a]\<rparr>\<rparr>))"
  using assms by (simp add: undo_empty redo_empty)

text \<open>The theorem at the new array, whose two stacks are empty.\<close>

theorem failed_undo_redo_witness:
  "buffer_ok DynamicArray_new
   \<and> undoStack (careTaker DynamicArray_new) = [] \<and> redoStack (careTaker DynamicArray_new) = []
   \<and> undo DynamicArray_new = Some ([msg_cannot_undo],
        DynamicArray_new\<lparr>careTaker := \<lparr>undoStack = [], redoStack = [snapshot DynamicArray_new]\<rparr>\<rparr>)
   \<and> redo DynamicArray_new = Some ([msg_cannot_redo],
        DynamicArray_new\<lparr>careTaker := \<lparr>undoStack = [snapshot DynamicArray_new], redoStack = []\<rparr>\<rparr>)"
proof -
  have e: "careTaker DynamicArray_new = \<lparr>undoStack = [], redoStack = []\<rparr>"
    by (simp add: DynamicArray_new_def)
  from failed_undo_redo_leave_spurious_entry [OF fixtures_ok(1)] e
  show ?thesis by (simp add: fixtures_ok)
qed

section \<open>Undo after a paste that grew the buffer\<close>

text \<open>
  C9 (the code fails it). \<open>append("hello!")\<close>, \<open>copyText(0, 6)\<close>, \<open>pasteText(6)\<close>,
  \<open>undo()\<close>. The paste pushes two mementos, equal to each other, of the array before
  it (size 6, capacity 10), and grows the array to size 12 and capacity 24. The \<open>undo()\<close>
  that follows calls \<open>resize(10)\<close> with 12 cells to copy and writes past the end of the
  new allocation. Nothing is restored.
\<close>

theorem undo_after_growing_paste_overflows:
  "map_option (undo_depth \<circ> snd) (run DynamicArray_new [Append ''hello!'', Copy 0 6]) = Some 1
   \<and> map_option (undo_depth \<circ> snd) (run DynamicArray_new [Append ''hello!'', Copy 0 6, Paste 6])
       = Some 3
   \<and> map_option (last \<circ> undoStack \<circ> careTaker \<circ> snd)
        (run DynamicArray_new [Append ''hello!'', Copy 0 6, Paste 6])
       = map_option (last \<circ> butlast \<circ> undoStack \<circ> careTaker \<circ> snd)
        (run DynamicArray_new [Append ''hello!'', Copy 0 6, Paste 6])
   \<and> map_option (savedCapacity \<circ> last \<circ> undoStack \<circ> careTaker \<circ> snd)
        (run DynamicArray_new [Append ''hello!'', Copy 0 6, Paste 6]) = Some 10
   \<and> map_option (size_d \<circ> snd) (run DynamicArray_new [Append ''hello!'', Copy 0 6, Paste 6])
       = Some 12
   \<and> map_option (capacity \<circ> snd) (run DynamicArray_new [Append ''hello!'', Copy 0 6, Paste 6])
       = Some 24
   \<and> run DynamicArray_new [Append ''hello!'', Copy 0 6, Paste 6, Undo] = None"
  by (simp add: exec_simps fixture_defs undo_depth_def)

section \<open>Appending the empty string\<close>

text \<open>
  C10. \<open>append("")\<close> returns; the size, the capacity, the clipboard and the \<open>size\<close>
  characters of the content are as before. The one cell it writes is the terminator at
  \<open>data[size]\<close>, so an array that has its terminator keeps every cell. The call still
  pushes one memento of the current state onto the undo stack and empties the redo stack.
\<close>

theorem append_empty_only_records:
  assumes "buffer_ok a"
  shows "\<exists>a'. append_d a [] = Some a'
           \<and> size_d a' = size_d a \<and> capacity a' = capacity a \<and> clipboard a' = clipboard a
           \<and> take (size_d a') (data a') = take (size_d a) (data a)
           \<and> data a' = (data a)[size_d a := Some NUL]
           \<and> (terminated a \<longrightarrow> data a' = data a)
           \<and> undoStack (careTaker a') = undoStack (careTaker a) @ [snapshot a]
           \<and> redoStack (careTaker a') = []"
proof -
  have "terminated a \<longrightarrow> (data a)[size_d a := Some NUL] = data a"
    unfolding terminated_def by (metis list_update_id)
  with assms show ?thesis
    by (simp add: append_d_empty recorded_fields)
qed

text \<open>The theorem at the array after \<open>undo()\<close>, which has a state to redo.\<close>

theorem append_empty_witness:
  "buffer_ok undone_buffer \<and> terminated undone_buffer \<and> redo_depth undone_buffer = 1
   \<and> (\<exists>a'. append_d undone_buffer [] = Some a'
         \<and> size_d a' = size_d undone_buffer \<and> capacity a' = capacity undone_buffer
         \<and> clipboard a' = clipboard undone_buffer \<and> data a' = data undone_buffer
         \<and> undoStack (careTaker a')
             = undoStack (careTaker undone_buffer) @ [snapshot undone_buffer]
         \<and> redoStack (careTaker a') = [])"
proof -
  have t: "terminated undone_buffer" "redo_depth undone_buffer = 1"
    by (simp_all add: terminated_def redo_depth_def undone_buffer_def)
  from append_empty_only_records [OF fixtures_ok(4)] t
  show ?thesis by (auto simp: fixtures_ok)
qed

end
